theory Spec2Isabelle
  imports Complex_Main "HOL-Library.Word" "HOL-Library.Log_Nat"
begin

unbundle bit_operations_syntax

section \<open>Go integers\<close>

type_synonym uint8 = "8 word"
type_synonym uint16 = "16 word"
type_synonym uint32 = "32 word"

text \<open>
  Go's \<^verbatim>\<open>/\<close> and \<^verbatim>\<open>%\<close> on integers truncate towards zero; HOL's \<open>div\<close> and \<open>mod\<close>
  round towards minus infinity, so both are written out.
\<close>

definition go_quot :: "int \<Rightarrow> int \<Rightarrow> int" where
  "go_quot a b = sgn a * sgn b * (\<bar>a\<bar> div \<bar>b\<bar>)"

definition go_rem :: "int \<Rightarrow> int \<Rightarrow> int" where
  "go_rem a b = a - b * go_quot a b"

text \<open>
  A value of Go's \<^verbatim>\<open>int\<close> (64 bits) is an \<open>int\<close> here; \<open>wrap_int\<close> is the
  two's complement wrap-around of an arithmetic result that leaves the range.
\<close>

definition wrap_int :: "int \<Rightarrow> int" where
  "wrap_int v = (v + 2 ^ 63) mod 2 ^ 64 - 2 ^ 63"

section \<open>IEEE 754 binary64 (\<^verbatim>\<open>float64\<close>)\<close>

text \<open>
  A \<^verbatim>\<open>float64\<close> is a signed finite magnitude (the sign is kept for zero, too), a signed
  infinity or a NaN. The operations compute the exact rational result and round it to
  the nearest representable magnitude, ties to even: 53 significant bits, exponents of
  the leading bit from -1022 to 1023, subnormals below. Fused multiply-add, which a Go
  compiler may choose on some targets, is not modelled.
\<close>

datatype float64 = Finite bool rat | Infinity bool | NaN

definition pow2 :: "int \<Rightarrow> rat" where
  "pow2 e = (if 0 \<le> e then 2 ^ nat e else 1 / 2 ^ nat (- e))"

text \<open>\<open>floor_log2 q\<close> is the exponent of the leading bit of \<open>q > 0\<close>.\<close>

definition floor_log2 :: "rat \<Rightarrow> int" where
  "floor_log2 q =
     (let (n, d) = quotient_of q; k = bitlen n - bitlen d
      in if pow2 k \<le> q then k else k - 1)"

definition round_half_even :: "rat \<Rightarrow> int" where
  "round_half_even x =
     (let f = \<lfloor>x\<rfloor>; d = x - of_int f
      in if d < 1 / 2 then f else if 1 / 2 < d then f + 1
         else if even f then f else f + 1)"

text \<open>Rounding of a magnitude; \<open>None\<close> is overflow.\<close>

definition round_mag :: "rat \<Rightarrow> rat option" where
  "round_mag q =
     (if q = 0 then Some 0
      else let e = max (floor_log2 q) (- 1022);
               u = pow2 (e - 52);
               r = of_int (round_half_even (q / u)) * u
           in if pow2 1024 \<le> r then None else Some r)"

definition round64 :: "bool \<Rightarrow> rat \<Rightarrow> float64" where
  "round64 s q = (case round_mag q of None \<Rightarrow> Infinity s | Some r \<Rightarrow> Finite s r)"

definition signed :: "bool \<Rightarrow> rat \<Rightarrow> rat" where
  "signed s m = (if s then - m else m)"

fun fneg :: "float64 \<Rightarrow> float64" where
  "fneg (Finite s m) = Finite (\<not> s) m"
| "fneg (Infinity s) = Infinity (\<not> s)"
| "fneg NaN = NaN"

fun fmul :: "float64 \<Rightarrow> float64 \<Rightarrow> float64" where
  "fmul (Finite s a) (Finite t b) = round64 (s \<noteq> t) (a * b)"
| "fmul (Finite s a) (Infinity t) = (if a = 0 then NaN else Infinity (s \<noteq> t))"
| "fmul (Infinity s) (Finite t b) = (if b = 0 then NaN else Infinity (s \<noteq> t))"
| "fmul (Infinity s) (Infinity t) = Infinity (s \<noteq> t)"
| "fmul NaN _ = NaN"
| "fmul _ NaN = NaN"

fun fadd :: "float64 \<Rightarrow> float64 \<Rightarrow> float64" where
  "fadd (Finite s a) (Finite t b) =
     (let v = signed s a + signed t b
      in if v = 0 then Finite (s \<and> t \<and> a = 0 \<and> b = 0) 0
         else round64 (v < 0) \<bar>v\<bar>)"
| "fadd (Finite s a) (Infinity t) = Infinity t"
| "fadd (Infinity s) (Finite t b) = Infinity s"
| "fadd (Infinity s) (Infinity t) = (if s = t then Infinity s else NaN)"
| "fadd NaN _ = NaN"
| "fadd _ NaN = NaN"

definition fsub :: "float64 \<Rightarrow> float64 \<Rightarrow> float64" where
  "fsub a b = fadd a (fneg b)"

fun fdiv :: "float64 \<Rightarrow> float64 \<Rightarrow> float64" where
  "fdiv (Finite s a) (Finite t b) =
     (if b = 0 then (if a = 0 then NaN else Infinity (s \<noteq> t))
      else round64 (s \<noteq> t) (a / b))"
| "fdiv (Finite s a) (Infinity t) = Finite (s \<noteq> t) 0"
| "fdiv (Infinity s) (Finite t b) = Infinity (s \<noteq> t)"
| "fdiv (Infinity s) (Infinity t) = NaN"
| "fdiv NaN _ = NaN"
| "fdiv _ NaN = NaN"

text \<open>The comparison \<^verbatim>\<open>a > b\<close>: false as soon as an operand is a NaN.\<close>

fun fgt :: "float64 \<Rightarrow> float64 \<Rightarrow> bool" where
  "fgt (Finite s a) (Finite t b) = (signed t b < signed s a)"
| "fgt (Finite s a) (Infinity t) = t"
| "fgt (Infinity s) (Finite t b) = (\<not> s)"
| "fgt (Infinity s) (Infinity t) = (\<not> s \<and> t)"
| "fgt NaN _ = False"
| "fgt _ NaN = False"

text \<open>The conversion \<^verbatim>\<open>float64(n)\<close> of an integer, and of an integer constant.\<close>

definition float64_of_int :: "int \<Rightarrow> float64" where
  "float64_of_int n = round64 (n < 0) (of_int \<bar>n\<bar>)"

section \<open>Package \<^verbatim>\<open>image/color\<close>\<close>

text \<open>
  The colour types the program meets. \<open>OtherColor r g b a\<close> stands for a value of any
  other implementation of \<^verbatim>\<open>color.Color\<close>, given by what its \<^verbatim>\<open>RGBA()\<close> method returns.
\<close>

datatype color =
    RGBA uint8 uint8 uint8 uint8
  | NRGBA uint8 uint8 uint8 uint8
  | Gray uint8
  | Gray16 uint16
  | OtherColor uint32 uint32 uint32 uint32

definition Black :: color where
  "Black = Gray16 0"

definition widen8 :: "uint8 \<Rightarrow> uint32" where
  "widen8 v = (let r = (ucast v :: uint32) in r OR push_bit 8 r)"

definition premultiply :: "uint8 \<Rightarrow> uint8 \<Rightarrow> uint32" where
  "premultiply v a = (widen8 v * ucast a) div 0xff"

fun color_RGBA :: "color \<Rightarrow> uint32 \<times> uint32 \<times> uint32 \<times> uint32" where
  "color_RGBA (RGBA r g b a) = (widen8 r, widen8 g, widen8 b, widen8 a)"
| "color_RGBA (NRGBA r g b a) = (premultiply r a, premultiply g a, premultiply b a, widen8 a)"
| "color_RGBA (Gray y) = (widen8 y, widen8 y, widen8 y, 0xffff)"
| "color_RGBA (Gray16 y) = (ucast y, ucast y, ucast y, 0xffff)"
| "color_RGBA (OtherColor r g b a) = (r, g, b, a)"

definition uint8_shr8 :: "uint32 \<Rightarrow> uint8" where
  "uint8_shr8 v = ucast (drop_bit 8 v)"

text \<open>\<^verbatim>\<open>color.RGBAModel.Convert\<close>, as the four bytes of the resulting \<^verbatim>\<open>color.RGBA\<close>.\<close>

type_synonym pixel = "uint8 \<times> uint8 \<times> uint8 \<times> uint8"

fun rgbaModel :: "color \<Rightarrow> pixel" where
  "rgbaModel (RGBA r g b a) = (r, g, b, a)"
| "rgbaModel c =
     (case color_RGBA c of (r, g, b, a) \<Rightarrow>
        (uint8_shr8 r, uint8_shr8 g, uint8_shr8 b, uint8_shr8 a))"

section \<open>Package \<^verbatim>\<open>image\<close>\<close>

record Point =
  X :: int
  Y :: int

record Rectangle =
  Min_pt :: Point
  Max_pt :: Point

definition Point_In :: "Point \<Rightarrow> Rectangle \<Rightarrow> bool" where
  "Point_In p r \<longleftrightarrow>
     X (Min_pt r) \<le> X p \<and> X p < X (Max_pt r) \<and> Y (Min_pt r) \<le> Y p \<and> Y p < Y (Max_pt r)"

text \<open>
  An \<^verbatim>\<open>*image.RGBA\<close>: its rectangle and its pixel store. The byte slice \<^verbatim>\<open>Pix\<close> is read
  and written only through \<^verbatim>\<open>PixOffset\<close>, four bytes per point of the rectangle, so
  it is kept as a map from coordinates to the four bytes.
\<close>

record RGBA_image =
  Rect :: Rectangle
  Pix :: "int \<times> int \<Rightarrow> pixel"

definition NewRGBA :: "Rectangle \<Rightarrow> RGBA_image" where
  "NewRGBA r = \<lparr>Rect = r, Pix = (\<lambda>_. (0, 0, 0, 0))\<rparr>"

definition RGBA_Set :: "RGBA_image \<Rightarrow> int \<Rightarrow> int \<Rightarrow> color \<Rightarrow> RGBA_image" where
  "RGBA_Set p x y c =
     (if \<not> Point_In \<lparr>X = x, Y = y\<rparr> (Rect p) then p
      else p\<lparr>Pix := (Pix p)((x, y) := rgbaModel c)\<rparr>)"

definition RGBA_At :: "RGBA_image \<Rightarrow> int \<Rightarrow> int \<Rightarrow> color" where
  "RGBA_At p x y =
     (if \<not> Point_In \<lparr>X = x, Y = y\<rparr> (Rect p) then RGBA 0 0 0 0
      else (case Pix p (x, y) of (r, g, b, a) \<Rightarrow> RGBA r g b a))"

text \<open>An \<^verbatim>\<open>image.Image\<close> that is only sampled: its bounds and its \<^verbatim>\<open>At\<close> method.\<close>

record Image =
  Bounds :: Rectangle
  At :: "int \<Rightarrow> int \<Rightarrow> color"

section \<open>The program\<close>

definition width :: int where
  "width = 800"

definition height :: int where
  "height = 800"

definition maxIter :: int where
  "maxIter = 200"

record ComplexNumber =
  Real :: float64
  Imag :: float64

text \<open>
  The loop of \<^verbatim>\<open>mandelbrot\<close>, from its state \<open>(i, z)\<close> at the loop test. Beside the colour
  it returns how many times the loop body ran.
\<close>

function mandelbrot_loop :: "int \<Rightarrow> ComplexNumber \<Rightarrow> ComplexNumber \<Rightarrow> color \<times> nat" where
  "mandelbrot_loop i z c =
     (if i < maxIter then
        (let z' = \<lparr>Real = fadd (fsub (fmul (Real z) (Real z)) (fmul (Imag z) (Imag z))) (Real c),
                   Imag = fadd (fmul (fmul (Finite False 2) (Real z)) (Imag z)) (Imag c)\<rparr>
         in if fgt (fadd (fmul (Real z') (Real z')) (fmul (Imag z') (Imag z'))) (Finite False 4)
            then (Gray (word_of_int (go_rem i 256)), 1)
            else (case mandelbrot_loop (i + 1) z' c of (col, n) \<Rightarrow> (col, Suc n)))
      else (Black, 0))"
  by pat_completeness auto
termination
  by (relation "measure (\<lambda>(i, z, c). nat (maxIter - i))") auto

definition mandelbrot :: "ComplexNumber \<Rightarrow> color" where
  "mandelbrot c = fst (mandelbrot_loop 0 \<lparr>Real = Finite False 0, Imag = Finite False 0\<rparr> c)"

definition mandelbrot_iterations :: "ComplexNumber \<Rightarrow> nat" where
  "mandelbrot_iterations c =
     snd (mandelbrot_loop 0 \<lparr>Real = Finite False 0, Imag = Finite False 0\<rparr> c)"

text \<open>
  The classification in the specification's words: \<open>orbit c n\<close> is \<open>z\<close> after \<open>n\<close> updates
  \<open>z \<leftarrow> z\<^sup>2 + c\<close> from \<open>0 + 0i\<close>, \<open>escaped z\<close> is the test \<open>|z|\<^sup>2 > 4\<close>, and
  \<open>first_escape c\<close> is \<open>Some i\<close> for \<open>Escaped(i)\<close>, the first index below the iteration
  limit whose update is observed escaped, and \<open>None\<close> for \<open>Bounded\<close>.
\<close>

definition square_plus :: "ComplexNumber \<Rightarrow> ComplexNumber \<Rightarrow> ComplexNumber" where
  "square_plus z c =
     \<lparr>Real = fadd (fsub (fmul (Real z) (Real z)) (fmul (Imag z) (Imag z))) (Real c),
      Imag = fadd (fmul (fmul (Finite False 2) (Real z)) (Imag z)) (Imag c)\<rparr>"

fun orbit :: "ComplexNumber \<Rightarrow> nat \<Rightarrow> ComplexNumber" where
  "orbit c 0 = \<lparr>Real = Finite False 0, Imag = Finite False 0\<rparr>"
| "orbit c (Suc n) = square_plus (orbit c n) c"

definition escaped :: "ComplexNumber \<Rightarrow> bool" where
  "escaped z = fgt (fadd (fmul (Real z) (Real z)) (fmul (Imag z) (Imag z))) (Finite False 4)"

definition first_escape :: "ComplexNumber \<Rightarrow> nat option" where
  "first_escape c = find (\<lambda>i. escaped (orbit c (Suc i))) [0..<nat maxIter]"

definition escape_color :: "nat option \<Rightarrow> color" where
  "escape_color e = (case e of None \<Rightarrow> Black | Some i \<Rightarrow> Gray (of_nat (i mod 256)))"

subsection \<open>Loops\<close>

text \<open>
  \<^verbatim>\<open>for i := lo; i < hi; i++ { body }\<close>, where the body changes neither \<open>i\<close> nor \<open>hi\<close>;
  \<open>i < hi\<close> keeps \<open>i + 1\<close> in range.
\<close>

function for_loop :: "int \<Rightarrow> int \<Rightarrow> (int \<Rightarrow> 's \<Rightarrow> 's) \<Rightarrow> 's \<Rightarrow> 's" where
  "for_loop i hi body s = (if i < hi then for_loop (i + 1) hi body (body i s) else s)"
  by pat_completeness auto
termination
  by (relation "measure (\<lambda>(i, hi, body, s). nat (hi - i))") auto

subsection \<open>The sequential renderer\<close>

definition seq_point :: "int \<Rightarrow> int \<Rightarrow> ComplexNumber" where
  "seq_point x y =
     \<lparr>Real = fdiv (float64_of_int (wrap_int (x - go_quot width 2)))
                  (float64_of_int (go_quot width 4)),
      Imag = fdiv (float64_of_int (wrap_int (y - go_quot height 2)))
                  (float64_of_int (go_quot height 4))\<rparr>"

definition seq_pixel :: "Image \<Rightarrow> int \<Rightarrow> int \<Rightarrow> RGBA_image \<Rightarrow> RGBA_image" where
  "seq_pixel existingImg x y img =
     (let c = seq_point x y;
          img1 = RGBA_Set img x y (mandelbrot c);
          (r, g, b, a) = color_RGBA (At existingImg x y)
      in RGBA_Set img1 x y (RGBA (uint8_shr8 r) (uint8_shr8 g) (uint8_shr8 b) 255))"

definition generateMandelbrotSequential :: "RGBA_image \<Rightarrow> Image \<Rightarrow> RGBA_image" where
  "generateMandelbrotSequential img existingImg =
     (let bounds = Rect img
      in for_loop (X (Min_pt bounds)) (X (Max_pt bounds))
           (\<lambda>x. for_loop (Y (Min_pt bounds)) (Y (Max_pt bounds))
                  (\<lambda>y. seq_pixel existingImg x y))
           img)"

subsection \<open>The parallel renderer\<close>

text \<open>
  A \<^verbatim>\<open>sync.WaitGroup\<close> is its counter. \<^verbatim>\<open>Done\<close> panics when the counter would become
  negative, and \<^verbatim>\<open>Wait\<close> returns only at zero.
\<close>

datatype failure = NegativeWaitGroupCounter | WaitNeverReturns

definition wg_Add :: "int \<Rightarrow> int \<Rightarrow> failure + int" where
  "wg_Add delta n = (if n + delta < 0 then Inl NegativeWaitGroupCounter else Inr (n + delta))"

definition wg_Done :: "int \<Rightarrow> failure + int" where
  "wg_Done n = wg_Add (- 1) n"

definition par_point :: "int \<Rightarrow> int \<Rightarrow> ComplexNumber" where
  "par_point x y =
     \<lparr>Real = fdiv (float64_of_int (wrap_int (x - go_quot width 2)))
                  (float64_of_int (go_quot width 4)),
      Imag = fdiv (float64_of_int (wrap_int (y - go_quot height 2)))
                  (float64_of_int (go_quot height 4))\<rparr>"

definition par_pixel :: "Image \<Rightarrow> int \<Rightarrow> int \<Rightarrow> RGBA_image \<Rightarrow> RGBA_image" where
  "par_pixel existingImg x y img =
     (let c = par_point x y;
          img1 = RGBA_Set img x y (mandelbrot c);
          (r, g, b, a) = color_RGBA (At existingImg x y)
      in RGBA_Set img1 x y (RGBA (uint8_shr8 r) (uint8_shr8 g) (uint8_shr8 b) 255))"

text \<open>
  The goroutine of column \<open>x\<close>, run from start to end: its \<open>height\<close> pixels, then the
  deferred \<^verbatim>\<open>wg.Done()\<close>.
\<close>

definition column_goroutine ::
  "Image \<Rightarrow> int \<Rightarrow> RGBA_image \<times> int \<Rightarrow> failure + RGBA_image \<times> int" where
  "column_goroutine existingImg x st =
     (case st of (img, wg) \<Rightarrow>
        (let img' = for_loop 0 height (\<lambda>y. par_pixel existingImg x y) img
         in case wg_Done wg of Inl e \<Rightarrow> Inl e | Inr wg' \<Rightarrow> Inr (img', wg')))"

text \<open>
  The renderer under the schedule that runs the goroutines one after the other, in the
  order they are started. \<open>Inr\<close> is the raster at the return of \<^verbatim>\<open>wg.Wait()\<close>.
\<close>

definition generateMandelbrotParallel :: "RGBA_image \<Rightarrow> Image \<Rightarrow> failure + RGBA_image" where
  "generateMandelbrotParallel img existingImg =
     (case wg_Add height 0 of Inl e \<Rightarrow> Inl e
      | Inr wg0 \<Rightarrow>
         (case for_loop 0 width
                 (\<lambda>x s. case s of Inl e \<Rightarrow> Inl e | Inr st \<Rightarrow> column_goroutine existingImg x st)
                 (Inr (img, wg0))
          of Inl e \<Rightarrow> Inl e
           | Inr (img', wg') \<Rightarrow> if wg' = 0 then Inr img' else Inl WaitNeverReturns))"

subsection \<open>\<^verbatim>\<open>copyImage\<close>\<close>

definition copyImage :: "RGBA_image \<Rightarrow> Image \<Rightarrow> RGBA_image" where
  "copyImage destImg srcImg =
     (let b = Rect destImg
      in for_loop (X (Min_pt b)) (X (Max_pt b))
           (\<lambda>x. for_loop (Y (Min_pt b)) (Y (Max_pt b))
                  (\<lambda>y d. RGBA_Set d x y (At srcImg x y)))
           destImg)"

subsection \<open>The parallel renderer, goroutine by goroutine\<close>

text \<open>
  The same function as a transition system whose steps interleave freely. The state
  holds the shared raster, the counter of the wait group, the loop variable of the
  launching loop, and for every column whether its goroutine is not yet started, is
  about to treat row \<open>y\<close>, or has called \<^verbatim>\<open>Done\<close>. One step is the start of the next
  goroutine, one pixel of one goroutine, the \<^verbatim>\<open>Done\<close> of a goroutine that has left its
  loop (a panic if the counter would become negative), or the return of \<^verbatim>\<open>wg.Wait()\<close>
  once the launching loop is over and the counter is zero.
\<close>

datatype status = Pending | Running int | Finished

record par_state =
  raster :: RGBA_image
  counter :: int
  started :: int
  progress :: "int \<Rightarrow> status"
  returned :: bool
  panicked :: bool

text \<open>The state after \<^verbatim>\<open>wg.Add(height)\<close>.\<close>

definition par_init :: "RGBA_image \<Rightarrow> par_state" where
  "par_init img =
     \<lparr>raster = img, counter = height, started = 0, progress = (\<lambda>_. Pending),
      returned = False, panicked = False\<rparr>"

inductive par_step :: "Image \<Rightarrow> par_state \<Rightarrow> par_state \<Rightarrow> bool" for existingImg where
  launch:
    "started s < width \<Longrightarrow>
     par_step existingImg s
       (s\<lparr>started := started s + 1, progress := (progress s)(started s := Running 0)\<rparr>)"
| pixel:
    "progress s x = Running y \<Longrightarrow> y < height \<Longrightarrow>
     par_step existingImg s
       (s\<lparr>raster := par_pixel existingImg x y (raster s),
          progress := (progress s)(x := Running (y + 1))\<rparr>)"
| finish:
    "progress s x = Running y \<Longrightarrow> \<not> y < height \<Longrightarrow> wg_Done (counter s) = Inr n \<Longrightarrow>
     par_step existingImg s (s\<lparr>counter := n, progress := (progress s)(x := Finished)\<rparr>)"
| finish_panic:
    "progress s x = Running y \<Longrightarrow> \<not> y < height \<Longrightarrow> wg_Done (counter s) = Inl e \<Longrightarrow>
     par_step existingImg s (s\<lparr>panicked := True\<rparr>)"
| wait:
    "\<not> started s < width \<Longrightarrow> counter s = 0 \<Longrightarrow> \<not> returned s \<Longrightarrow>
     par_step existingImg s (s\<lparr>returned := True\<rparr>)"

inductive par_reachable :: "Image \<Rightarrow> RGBA_image \<Rightarrow> par_state \<Rightarrow> bool"
  for existingImg img where
  start: "par_reachable existingImg img (par_init img)"
| step: "par_reachable existingImg img s \<Longrightarrow> par_step existingImg s s' \<Longrightarrow>
         par_reachable existingImg img s'"

text \<open>The rows of a column that its goroutine has treated.\<close>

fun treated :: "status \<Rightarrow> int \<Rightarrow> bool" where
  "treated Pending b = False"
| "treated (Running y) b = (0 \<le> b \<and> b < y)"
| "treated Finished b = (0 \<le> b \<and> b < height)"

subsection \<open>\<^verbatim>\<open>saveImage\<close>, \<^verbatim>\<open>processImage\<close> and \<^verbatim>\<open>main\<close>\<close>

text \<open>
  The world outside the program: the files by path, the lines printed so far, the
  counter of the wait group of \<^verbatim>\<open>main\<close>, and how many rasters have been allocated.
  A printed line is kept by its format and its arguments.
\<close>

datatype line =
    Processing string
  | ErrorOpening string
  | ErrorDecoding string
  | ErrorCreating string
  | ErrorEncoding string
  | SequentialElapsed string string
  | ParallelElapsed string string

record world =
  files :: "string \<rightharpoonup> uint8 list"
  stdout :: "line list"
  main_wg :: int
  rasters :: nat

text \<open>
  What the program takes from its libraries and its clock: the error text of an
  \<^verbatim>\<open>os.Open\<close> that fails, \<^verbatim>\<open>image.Decode\<close>, the error of an \<^verbatim>\<open>os.Create\<close> that fails,
  \<^verbatim>\<open>png.Encode\<close> (the bytes written, and an error if there is one), and the texts of
  the two measured durations of a preset.
\<close>

record env =
  open_error :: "string \<Rightarrow> string"
  Decode :: "uint8 list \<Rightarrow> string + Image"
  create_error :: "string \<Rightarrow> string option"
  Encode :: "RGBA_image \<Rightarrow> uint8 list \<times> string option"
  sequential_time :: "string \<Rightarrow> string"
  parallel_time :: "string \<Rightarrow> string"

definition Println :: "line \<Rightarrow> world \<Rightarrow> world" where
  "Println l w = w\<lparr>stdout := stdout w @ [l]\<rparr>"

definition os_Open :: "env \<Rightarrow> world \<Rightarrow> string \<Rightarrow> string + uint8 list" where
  "os_Open e w file = (case files w file of None \<Rightarrow> Inl (open_error e file) | Some bytes \<Rightarrow> Inr bytes)"

text \<open>
  The goroutines of \<^verbatim>\<open>main\<close> run concurrently, so \<^verbatim>\<open>processImage\<close> is kept as the
  sequence of its accesses to the world, one step each: a line printed, a raster
  allocated by \<^verbatim>\<open>image.NewRGBA\<close>, a file created empty by \<^verbatim>\<open>os.Create\<close>, the bytes
  that \<^verbatim>\<open>png.Encode\<close> writes to it, the deferred \<^verbatim>\<open>wg.Done()\<close>, which panics when the
  counter would become negative, and the end of the goroutine in a parallel renderer
  that does not return.
\<close>

datatype action =
    Print line
  | Allocate
  | Create string
  | Write string "uint8 list"
  | Done_wg
  | Crash failure

fun perform :: "action \<Rightarrow> world \<Rightarrow> failure + world" where
  "perform (Print l) w = Inr (Println l w)"
| "perform Allocate w = Inr (w\<lparr>rasters := Suc (rasters w)\<rparr>)"
| "perform (Create fileName) w = Inr (w\<lparr>files := (files w)(fileName \<mapsto> [])\<rparr>)"
| "perform (Write fileName bytes) w = Inr (w\<lparr>files := (files w)(fileName \<mapsto> bytes)\<rparr>)"
| "perform Done_wg w =
     (case wg_Done (main_wg w) of Inl f \<Rightarrow> Inl f | Inr n \<Rightarrow> Inr (w\<lparr>main_wg := n\<rparr>))"
| "perform (Crash f) w = Inl f"

definition saveImage :: "env \<Rightarrow> RGBA_image \<Rightarrow> string \<Rightarrow> action list" where
  "saveImage e img fileName =
     (case create_error e fileName of
        Some err \<Rightarrow> [Print (ErrorCreating err)]
      | None \<Rightarrow>
         (case Encode e img of (bytes, err) \<Rightarrow>
            [Create fileName, Write fileName bytes]
            @ (case err of None \<Rightarrow> [] | Some msg \<Rightarrow> [Print (ErrorEncoding msg)])))"

definition result_path :: "string \<Rightarrow> string \<Rightarrow> string" where
  "result_path level name = ''photos/result/'' @ level @ ''/'' @ name"

text \<open>
  \<^verbatim>\<open>processImage\<close> from the result \<open>opened\<close> of its \<^verbatim>\<open>os.Open\<close> on; the first line it
  prints and the \<^verbatim>\<open>os.Open\<close> itself are steps of \<open>main_step\<close> below. The bytes that
  \<^verbatim>\<open>image.Decode\<close> reads are those of the file when it is opened: the program writes
  to the result paths only, which are no input paths. The rasters are the goroutine's
  own, so the two renderings are no accesses to the world. The deferred \<^verbatim>\<open>wg.Done()\<close> is
  the last action at each return.
\<close>

definition processImage :: "env \<Rightarrow> string \<Rightarrow> string + uint8 list \<Rightarrow> action list" where
  "processImage e level opened =
     (case opened of
        Inl err \<Rightarrow> [Print (ErrorOpening err), Done_wg]
      | Inr inputFile \<Rightarrow>
         (case Decode e inputFile of
            Inl err \<Rightarrow> [Print (ErrorDecoding err), Done_wg]
          | Inr existingImg \<Rightarrow>
             (let sequentialImg0 = NewRGBA (Bounds existingImg);
                  parallelImg0 = NewRGBA (Bounds existingImg);
                  sequentialImg1 = copyImage sequentialImg0 existingImg;
                  parallelImg1 = copyImage parallelImg0 existingImg;
                  sequentialImg = generateMandelbrotSequential sequentialImg1 existingImg
              in [Allocate, Allocate]
                 @ saveImage e sequentialImg (result_path level ''mandelbrot_sequential.png'')
                 @ [Print (SequentialElapsed level (sequential_time e level))]
                 @ (case generateMandelbrotParallel parallelImg1 existingImg of
                      Inl f \<Rightarrow> [Crash f]
                    | Inr parallelImg \<Rightarrow>
                       saveImage e parallelImg (result_path level ''mandelbrot_parallel.png'')
                       @ [Print (ParallelElapsed level (parallel_time e level)), Done_wg]))))"

definition levelFiles :: "string \<rightharpoonup> string" where
  "levelFiles =
     [''easy'' \<mapsto> ''photos/easy.png'',
      ''normal'' \<mapsto> ''photos/normal.png'',
      ''hard'' \<mapsto> ''photos/hard.png'']"

text \<open>
  \<^verbatim>\<open>main\<close> and its goroutines as a transition system whose steps interleave freely.
  The state holds the world, the keys of \<open>levelFiles\<close> that the \<^verbatim>\<open>range\<close> loop has not
  reached (it takes them in any order), where \<^verbatim>\<open>main\<close> stands, and for every level its
  goroutine, if started: about to print its first line, about to open its file, or
  with the actions it has left. A step of \<^verbatim>\<open>main\<close> is \<^verbatim>\<open>wg.Add(1)\<close> for a key not yet
  reached, the \<^verbatim>\<open>go\<close> statement for it, the end of the loop, or the return of
  \<^verbatim>\<open>wg.Wait()\<close> at counter zero. A step of a goroutine is its first line, its
  \<^verbatim>\<open>os.Open\<close>, or its next action; an action that fails is a panic, and after a panic nothing runs.
\<close>

datatype proc = Start string | Opening string | Script "action list"

datatype main_pc = Ranging | Spawning string | Waiting | Returned

record main_state =
  shared :: world
  unvisited :: "string set"
  pc :: main_pc
  procs :: "string \<rightharpoonup> proc"
  crashed :: bool

text \<open>The state at the start, on the file system \<open>fs\<close>: \<^verbatim>\<open>var wg sync.WaitGroup\<close> is zero.\<close>

definition initial_world :: "(string \<rightharpoonup> uint8 list) \<Rightarrow> world" where
  "initial_world fs = \<lparr>files = fs, stdout = [], main_wg = 0, rasters = 0\<rparr>"

definition main_init :: "(string \<rightharpoonup> uint8 list) \<Rightarrow> main_state" where
  "main_init fs =
     \<lparr>shared = initial_world fs, unvisited = dom levelFiles, pc = Ranging,
      procs = Map.empty, crashed = False\<rparr>"

inductive main_step :: "env \<Rightarrow> main_state \<Rightarrow> main_state \<Rightarrow> bool" for e where
  add:
    "pc s = Ranging \<Longrightarrow> level \<in> unvisited s \<Longrightarrow> wg_Add 1 (main_wg (shared s)) = Inr n \<Longrightarrow>
     main_step e s
       (s\<lparr>shared := (shared s)\<lparr>main_wg := n\<rparr>, unvisited := unvisited s - {level},
          pc := Spawning level\<rparr>)"
| add_panic:
    "pc s = Ranging \<Longrightarrow> level \<in> unvisited s \<Longrightarrow> wg_Add 1 (main_wg (shared s)) = Inl f \<Longrightarrow>
     main_step e s (s\<lparr>crashed := True\<rparr>)"
| go:
    "pc s = Spawning level \<Longrightarrow> levelFiles level = Some file \<Longrightarrow>
     main_step e s (s\<lparr>pc := Ranging, procs := (procs s)(level \<mapsto> Start file)\<rparr>)"
| range_end:
    "pc s = Ranging \<Longrightarrow> unvisited s = {} \<Longrightarrow> main_step e s (s\<lparr>pc := Waiting\<rparr>)"
| wait:
    "pc s = Waiting \<Longrightarrow> main_wg (shared s) = 0 \<Longrightarrow> main_step e s (s\<lparr>pc := Returned\<rparr>)"
| announce:
    "procs s level = Some (Start file) \<Longrightarrow>
     main_step e s
       (s\<lparr>shared := Println (Processing level) (shared s),
          procs := (procs s)(level \<mapsto> Opening file)\<rparr>)"
| open_file:
    "procs s level = Some (Opening file) \<Longrightarrow>
     main_step e s
       (s\<lparr>procs := (procs s)(level \<mapsto> Script (processImage e level (os_Open e (shared s) file)))\<rparr>)"
| act:
    "procs s level = Some (Script (a # rest)) \<Longrightarrow> perform a (shared s) = Inr w \<Longrightarrow>
     main_step e s (s\<lparr>shared := w, procs := (procs s)(level \<mapsto> Script rest)\<rparr>)"
| act_panic:
    "procs s level = Some (Script (a # rest)) \<Longrightarrow> perform a (shared s) = Inl f \<Longrightarrow>
     main_step e s (s\<lparr>crashed := True\<rparr>)"

text \<open>The runs of the program from a state; a program that has panicked takes no step.\<close>

inductive main_run :: "env \<Rightarrow> main_state \<Rightarrow> main_state \<Rightarrow> bool" for e s where
  stay: "main_run e s s"
| further: "main_run e s s' \<Longrightarrow> \<not> crashed s' \<Longrightarrow> main_step e s' s'' \<Longrightarrow> main_run e s s''"

definition main_reachable :: "env \<Rightarrow> (string \<rightharpoonup> uint8 list) \<Rightarrow> main_state \<Rightarrow> bool" where
  "main_reachable e fs s \<longleftrightarrow> main_run e (main_init fs) s"

subsection \<open>Auxiliary notions for the statements\<close>

text \<open>
  The re-quantized source colour: each 16-bit channel shifted right by 8 and cut to a
  byte, the alpha byte 255.
\<close>

definition requantize :: "color \<Rightarrow> pixel" where
  "requantize c =
     (case color_RGBA c of (r, g, b, a) \<Rightarrow> (uint8_shr8 r, uint8_shr8 g, uint8_shr8 b, 255))"

text \<open>Storing the bytes \<open>v x y\<close> at \<open>(x, y)\<close>, if the point is in the rectangle.\<close>

definition put_pixel :: "(int \<Rightarrow> int \<Rightarrow> pixel) \<Rightarrow> int \<Rightarrow> int \<Rightarrow> RGBA_image \<Rightarrow> RGBA_image" where
  "put_pixel v x y img =
     (if Point_In \<lparr>X = x, Y = y\<rparr> (Rect img) then img\<lparr>Pix := (Pix img)((x, y) := v x y)\<rparr>
      else img)"

definition in_window :: "int \<Rightarrow> int \<Rightarrow> bool" where
  "in_window x y \<longleftrightarrow> 0 \<le> x \<and> x < width \<and> 0 \<le> y \<and> y < height"

definition rect_in_window :: "Rectangle \<Rightarrow> bool" where
  "rect_in_window r \<longleftrightarrow>
     0 \<le> X (Min_pt r) \<and> X (Max_pt r) \<le> width \<and> 0 \<le> Y (Min_pt r) \<and> Y (Max_pt r) \<le> height"

definition pixel_color :: "pixel \<Rightarrow> color" where
  "pixel_color p = (case p of (r, g, b, a) \<Rightarrow> RGBA r g b a)"

text \<open>What holds in every state of the interleaved renderer.\<close>

definition par_inv :: "Image \<Rightarrow> RGBA_image \<Rightarrow> par_state \<Rightarrow> bool" where
  "par_inv src img s \<longleftrightarrow>
     0 \<le> started s \<and> started s \<le> width
     \<and> (\<forall>x. progress s x \<noteq> Pending \<longleftrightarrow> 0 \<le> x \<and> x < started s)
     \<and> (\<forall>x y. progress s x = Running y \<longrightarrow> 0 \<le> y \<and> y \<le> height)
     \<and> counter s = height - int (card {x. progress s x = Finished})
     \<and> Rect (raster s) = Rect img
     \<and> (\<forall>a b. Pix (raster s) (a, b) =
           (if Point_In \<lparr>X = a, Y = b\<rparr> (Rect img) \<and> treated (progress s a) b
            then requantize (At src a b) else Pix img (a, b)))
     \<and> (returned s \<longrightarrow> counter s = 0 \<and> started s = width)
     \<and> \<not> panicked s"

text \<open>
  The error line of a preset whose input, on the file system \<open>fs\<close>, cannot be opened or
  decoded, if it is one.
\<close>

definition failure_report :: "env \<Rightarrow> (string \<rightharpoonup> uint8 list) \<Rightarrow> string \<Rightarrow> line option" where
  "failure_report e fs file =
     (case fs file of
        None \<Rightarrow> Some (ErrorOpening (open_error e file))
      | Some bytes \<Rightarrow>
         (case Decode e bytes of Inl err \<Rightarrow> Some (ErrorDecoding err) | Inr _ \<Rightarrow> None))"

text \<open>The level of a timing report, and the timing reports of a level.\<close>

fun report_level :: "line \<Rightarrow> string option" where
  "report_level (SequentialElapsed level t) = Some level"
| "report_level (ParallelElapsed level t) = Some level"
| "report_level _ = None"

definition timing_of :: "string \<Rightarrow> line \<Rightarrow> bool" where
  "timing_of level l \<longleftrightarrow> report_level l = Some level"

definition sequential_path :: "string \<Rightarrow> string" where
  "sequential_path level = result_path level ''mandelbrot_sequential.png''"

definition parallel_path :: "string \<Rightarrow> string" where
  "parallel_path level = result_path level ''mandelbrot_parallel.png''"

text \<open>
  The actions that concern the level alone: they leave the counter, the files of the
  other levels and their timing reports as they are.
\<close>

fun own_action :: "string \<Rightarrow> action \<Rightarrow> bool" where
  "own_action level (Print l) = (report_level l = None \<or> report_level l = Some level)"
| "own_action level Allocate = True"
| "own_action level (Create p) = (p = sequential_path level \<or> p = parallel_path level)"
| "own_action level (Write p bytes) = (p = sequential_path level \<or> p = parallel_path level)"
| "own_action level Done_wg = False"
| "own_action level (Crash f) = False"

text \<open>The files after a sequence of actions.\<close>

fun files_after :: "action list \<Rightarrow> (string \<rightharpoonup> uint8 list) \<Rightarrow> (string \<rightharpoonup> uint8 list)" where
  "files_after [] m = m"
| "files_after (Create p # rest) m = files_after rest (m(p \<mapsto> []))"
| "files_after (Write p bytes # rest) m = files_after rest (m(p \<mapsto> bytes))"
| "files_after (_ # rest) m = files_after rest m"

text \<open>
  The actions of the goroutine of a level, which the file system at the start fixes,
  and how far a goroutine has come: \<open>past\<close> are the actions it has performed.
\<close>

definition outcome :: "env \<Rightarrow> (string \<rightharpoonup> uint8 list) \<Rightarrow> string \<Rightarrow> string \<Rightarrow> action list" where
  "outcome e fs level file = processImage e level (os_Open e (initial_world fs) file)"

fun proc_progress :: "proc option \<Rightarrow> string \<Rightarrow> action list \<Rightarrow> action list \<Rightarrow> bool" where
  "proc_progress None file out past = (past = [])"
| "proc_progress (Some (Start f)) file out past = (f = file \<and> past = [])"
| "proc_progress (Some (Opening f)) file out past = (f = file \<and> past = [])"
| "proc_progress (Some (Script rest)) file out past = (past @ rest = out)"

definition proc_ok ::
  "env \<Rightarrow> (string \<rightharpoonup> uint8 list) \<Rightarrow> main_state \<Rightarrow> string \<Rightarrow> string \<Rightarrow> action list \<Rightarrow> bool" where
  "proc_ok e fs s level file past \<longleftrightarrow>
     proc_progress (procs s level) file (outcome e fs level file) past
     \<and> files (shared s) (sequential_path level) = files_after past fs (sequential_path level)
     \<and> files (shared s) (parallel_path level) = files_after past fs (parallel_path level)
     \<and> (\<forall>l. timing_of level l \<longrightarrow> (l \<in> set (stdout (shared s)) \<longleftrightarrow> Print l \<in> set past))"

text \<open>The levels whose \<^verbatim>\<open>wg.Add(1)\<close> is done and whose \<^verbatim>\<open>wg.Done()\<close> is not.\<close>

definition pending :: "main_state \<Rightarrow> string set" where
  "pending s = {k \<in> dom levelFiles. k \<notin> unvisited s \<and> procs s k \<noteq> Some (Script [])}"

text \<open>
  A bound on the steps that are left: those of \<^verbatim>\<open>main\<close>, and for every level those of
  its goroutine, whose actions are \<open>n\<close> when it has not opened its file yet.
\<close>

fun pc_work :: "main_pc \<Rightarrow> nat" where
  "pc_work Ranging = 3"
| "pc_work (Spawning level) = 2"
| "pc_work Waiting = 1"
| "pc_work Returned = 0"

fun proc_work :: "nat \<Rightarrow> proc option \<Rightarrow> nat" where
  "proc_work n None = n + 4"
| "proc_work n (Some (Start f)) = n + 2"
| "proc_work n (Some (Opening f)) = n + 1"
| "proc_work n (Some (Script rest)) = length rest"

definition work :: "env \<Rightarrow> (string \<rightharpoonup> uint8 list) \<Rightarrow> main_state \<Rightarrow> nat" where
  "work e fs s =
     pc_work (pc s)
     + (\<Sum>level \<in> dom levelFiles.
          proc_work (length (outcome e fs level (the (levelFiles level)))) (procs s level))"

text \<open>What holds in every state of \<^verbatim>\<open>main\<close> and its goroutines.\<close>

definition main_inv :: "env \<Rightarrow> (string \<rightharpoonup> uint8 list) \<Rightarrow> main_state \<Rightarrow> bool" where
  "main_inv e fs s \<longleftrightarrow>
     \<not> crashed s
     \<and> unvisited s \<subseteq> dom levelFiles
     \<and> (\<forall>k f. levelFiles k = Some f \<longrightarrow> files (shared s) f = fs f)
     \<and> (\<forall>k. procs s k = None \<longleftrightarrow> k \<notin> dom levelFiles \<or> k \<in> unvisited s \<or> pc s = Spawning k)
     \<and> (\<forall>k. pc s = Spawning k \<longrightarrow> k \<in> dom levelFiles \<and> k \<notin> unvisited s)
     \<and> (pc s = Waiting \<or> pc s = Returned \<longrightarrow> unvisited s = {})
     \<and> (pc s = Returned \<longrightarrow> main_wg (shared s) = 0)
     \<and> main_wg (shared s) = int (card (pending s))
     \<and> (\<forall>k f. levelFiles k = Some f \<longrightarrow> (\<exists>past. proc_ok e fs s k f past))"

subsection \<open>Concrete inputs\<close>

definition origin :: ComplexNumber where
  "origin = \<lparr>Real = Finite False 0, Imag = Finite False 0\<rparr>"

definition five_five :: ComplexNumber where
  "five_five = \<lparr>Real = Finite False 5, Imag = Finite False 5\<rparr>"

definition minus_two_i :: ComplexNumber where
  "minus_two_i = \<lparr>Real = Finite False 0, Imag = Finite True 2\<rparr>"

definition rectangle :: "int \<Rightarrow> int \<Rightarrow> int \<Rightarrow> int \<Rightarrow> Rectangle" where
  "rectangle x0 y0 x1 y1 = \<lparr>Min_pt = \<lparr>X = x0, Y = y0\<rparr>, Max_pt = \<lparr>X = x1, Y = y1\<rparr>\<rparr>"

text \<open>
  A decoded picture of 801 by 1 pixels, every pixel the half-transparent red
  \<^verbatim>\<open>color.NRGBA{255, 0, 0, 128}\<close>; outside its bounds \<^verbatim>\<open>At\<close> gives the zero colour.
\<close>

definition wide_source :: Image where
  "wide_source =
     \<lparr>Bounds = rectangle 0 0 801 1,
      At = (\<lambda>x y. if Point_In \<lparr>X = x, Y = y\<rparr> (rectangle 0 0 801 1)
                    then NRGBA 255 0 0 128 else NRGBA 0 0 0 0)\<rparr>"

text \<open>A picture of 2 by 2 opaque pixels.\<close>

definition small_source :: Image where
  "small_source =
     \<lparr>Bounds = rectangle 0 0 2 2,
      At = (\<lambda>x y. if Point_In \<lparr>X = x, Y = y\<rparr> (rectangle 0 0 2 2)
                    then RGBA 10 20 30 255 else RGBA 0 0 0 0)\<rparr>"

text \<open>
  A file system with a picture for \<open>easy\<close>, a file that is no picture for \<open>normal\<close> and
  no file for \<open>hard\<close>; an environment that decodes the first to \<open>wide_source\<close>, creates
  every file and encodes a raster as the bytes of its pixels at (0, 0) and (800, 0).
\<close>

definition sample_files :: "string \<rightharpoonup> uint8 list" where
  "sample_files = [''photos/easy.png'' \<mapsto> [137, 80, 78, 71], ''photos/normal.png'' \<mapsto> [1, 2, 3]]"

definition bytes_at :: "RGBA_image \<Rightarrow> int \<Rightarrow> int \<Rightarrow> uint8 list" where
  "bytes_at img x y = (case Pix img (x, y) of (r, g, b, a) \<Rightarrow> [r, g, b, a])"

definition sample_env :: env where
  "sample_env =
     \<lparr>open_error = (\<lambda>file. ''open '' @ file @ '': no such file or directory''),
      Decode = (\<lambda>bytes. if bytes = [137, 80, 78, 71] then Inr wide_source
                         else Inl ''image: unknown format''),
      create_error = (\<lambda>file. None),
      Encode = (\<lambda>img. (bytes_at img 0 0 @ bytes_at img 800 0, None)),
      sequential_time = (\<lambda>level. ''2ms''),
      parallel_time = (\<lambda>level. ''1ms'')\<rparr>"

section \<open>Facts about the model\<close>

declare mandelbrot_loop.simps [simp del]
declare for_loop.simps [simp del]

subsection \<open>Rounding\<close>

lemma pow2_powi: "pow2 e = 2 powi e"
  by (simp add: pow2_def power_int_def power_inverse [symmetric] inverse_eq_divide power_one_over)

lemma pow2_pos: "0 < pow2 e"
  by (simp add: pow2_powi)

lemma pow2_add: "pow2 (a + b) = pow2 a * pow2 b"
  by (simp add: pow2_powi power_int_add)

lemma pow2_mono: "a \<le> b \<Longrightarrow> pow2 a \<le> pow2 b"
  by (simp add: pow2_powi power_int_increasing)

lemma pow2_strict_mono: "a < b \<Longrightarrow> pow2 a < pow2 b"
  by (simp add: pow2_powi power_int_strict_increasing)

lemma pow2_nat: "0 \<le> e \<Longrightarrow> pow2 e = 2 ^ nat e"
  by (simp add: pow2_def)

lemma bitlen_rat_bounds:
  assumes "0 < n"
  shows "pow2 (bitlen n - 1) \<le> of_int n" and "of_int n < pow2 (bitlen n)"
proof -
  have b: "2 ^ nat (bitlen n - 1) \<le> n \<and> n < 2 ^ nat (bitlen n)"
    using bitlen_bounds [OF assms] .
  have ge: "1 \<le> bitlen n" using assms by (auto simp: bitlen_alt_def)
  have "(of_int (2 ^ nat (bitlen n - 1)) :: rat) \<le> of_int n"
    using b by (simp only: of_int_le_iff)
  then show "pow2 (bitlen n - 1) \<le> of_int n" using ge by (simp add: pow2_nat)
  have "(of_int n :: rat) < of_int (2 ^ nat (bitlen n))"
    using b by (simp only: of_int_less_iff)
  then show "of_int n < pow2 (bitlen n)" using ge by (simp add: pow2_nat)
qed

lemma floor_log2_bounds:
  assumes "0 < q"
  shows "pow2 (floor_log2 q) \<le> q \<and> q < pow2 (floor_log2 q + 1)"
proof -
  obtain n d where nd: "quotient_of q = (n, d)" by (cases "quotient_of q")
  then have q: "q = of_int n / of_int d" and d: "0 < d"
    by (simp_all add: quotient_of_div quotient_of_denom_pos)
  have n: "0 < n" using assms q d by (simp add: zero_less_divide_iff)
  define k where "k = bitlen n - bitlen d"
  have dpos: "(0::rat) < of_int d" using d by simp
  have up: "q < pow2 (k + 1)"
  proof -
    have "of_int n < pow2 (bitlen n)" using bitlen_rat_bounds(2) [OF n] .
    also have "pow2 (bitlen n) = pow2 (k + 1) * pow2 (bitlen d - 1)"
      by (simp add: pow2_add [symmetric] k_def)
    also have "\<dots> \<le> pow2 (k + 1) * of_int d"
      using bitlen_rat_bounds(1) [OF d] pow2_pos [of "k + 1"] by simp
    finally show ?thesis using dpos by (simp add: q pos_divide_less_eq)
  qed
  have lo: "pow2 (k - 1) < q"
  proof -
    have "pow2 (k - 1) * of_int d < pow2 (k - 1) * pow2 (bitlen d)"
      using bitlen_rat_bounds(2) [OF d] pow2_pos [of "k - 1"] by simp
    also have "\<dots> = pow2 (bitlen n - 1)"
      by (simp add: pow2_add [symmetric] k_def)
    also have "\<dots> \<le> of_int n" using bitlen_rat_bounds(1) [OF n] .
    finally show ?thesis using dpos by (simp add: q pos_less_divide_eq)
  qed
  show ?thesis
  proof (cases "pow2 k \<le> q")
    case True
    then have "floor_log2 q = k" by (simp add: floor_log2_def nd k_def Let_def)
    then show ?thesis using True up by simp
  next
    case False
    then have "floor_log2 q = k - 1" by (simp add: floor_log2_def nd k_def Let_def)
    then show ?thesis using False lo by simp
  qed
qed


lemma round_half_even_of_int: "round_half_even (of_int m) = m"
  by (simp add: round_half_even_def)

lemma pow2_less_cancel: "pow2 a < pow2 b \<Longrightarrow> a < b"
  using pow2_mono [of b a] by (cases "a < b") auto

lemma round_mag_of_int:
  assumes "0 \<le> n" and "n < 2 ^ 53"
  shows "round_mag (of_int n) = Some (of_int n)"
proof (cases "n = 0")
  case True
  then show ?thesis by (simp add: round_mag_def)
next
  case False
  then have pos: "(0::rat) < of_int n" using assms by simp
  define e where "e = floor_log2 (of_int n)"
  have b: "pow2 e \<le> of_int n" "of_int n < pow2 (e + 1)"
    using floor_log2_bounds [OF pos] by (simp_all add: e_def)
  have "(1::rat) \<le> of_int n" using False assms by simp
  then have "pow2 0 < pow2 (e + 1)" using b(2) by (simp add: pow2_def)
  then have e0: "0 \<le> e" using pow2_less_cancel [of 0 "e + 1"] by simp
  have "(of_int n :: rat) < of_int (2 ^ 53)" using assms(2) by (simp only: of_int_less_iff)
  then have "pow2 e < pow2 53" using b(1) by (simp add: pow2_def)
  then have e52: "e \<le> 52" using pow2_less_cancel [of e 53] by simp
  have u: "pow2 (e - 52) = 1 / 2 ^ nat (52 - e)"
    using e52 by (cases "e = 52") (simp_all add: pow2_def)
  have scaled: "of_int n / pow2 (e - 52) = (of_int (n * 2 ^ nat (52 - e)) :: rat)"
    by (simp add: u)
  have r: "of_int (round_half_even (of_int n / pow2 (e - 52))) * pow2 (e - 52) = (of_int n :: rat)"
    by (simp only: scaled round_half_even_of_int) (simp add: u)
  have small: "\<not> pow2 1024 \<le> (of_int n :: rat)"
  proof -
    have "pow2 53 \<le> pow2 1024" by (rule pow2_mono) simp
    moreover have "(of_int n :: rat) < pow2 53"
      using \<open>of_int n < of_int (2 ^ 53)\<close> by (simp add: pow2_def)
    ultimately show ?thesis by simp
  qed
  have m: "max e (- 1022) = e" using e0 by simp
  show ?thesis
    using pos small by (simp add: round_mag_def Let_def e_def [symmetric] m r)
qed


subsection \<open>The escape-time loop\<close>

lemma go_rem_nonneg: "0 \<le> a \<Longrightarrow> go_rem a 256 = a mod 256"
  by (cases "a = 0") (simp_all add: go_rem_def go_quot_def minus_mult_div_eq_mod)

lemma word_of_int_mod256: "(word_of_int (int i mod 256) :: uint8) = of_nat (i mod 256)"
proof -
  have "int i mod 256 = int (i mod 256)" by (simp add: zmod_int)
  then show ?thesis by (simp only: of_int_of_nat_eq)
qed

lemma mandelbrot_loop_unfold:
  "mandelbrot_loop i z c =
     (if i < maxIter then
        (if escaped (square_plus z c) then (Gray (word_of_int (go_rem i 256)), 1)
         else (case mandelbrot_loop (i + 1) (square_plus z c) c of (col, n) \<Rightarrow> (col, Suc n)))
      else (Black, 0))"
  by (subst mandelbrot_loop.simps) (simp add: Let_def escaped_def square_plus_def)

lemma mandelbrot_loop_find:
  "i \<le> nat maxIter \<Longrightarrow>
   mandelbrot_loop (int i) (orbit c i) c =
     (case find (\<lambda>j. escaped (orbit c (Suc j))) [i..<nat maxIter] of
        None \<Rightarrow> (Black, nat maxIter - i)
      | Some j \<Rightarrow> (Gray (of_nat (j mod 256)), Suc j - i))"
proof (induction "nat maxIter - i" arbitrary: i)
  case 0
  then have "i = nat maxIter" by simp
  then have "\<not> int i < maxIter" by simp
  then show ?case using \<open>i = nat maxIter\<close>
    by (subst mandelbrot_loop_unfold) simp
next
  case (Suc k)
  then have lt: "i < nat maxIter" by simp
  then have lt': "int i < maxIter" by simp
  have upt: "[i..<nat maxIter] = i # [Suc i..<nat maxIter]"
    using lt by (simp add: upt_conv_Cons)
  show ?case
  proof (cases "escaped (orbit c (Suc i))")
    case True
    then show ?thesis using lt' upt
      by (subst mandelbrot_loop_unfold) (simp add: go_rem_nonneg word_of_int_mod256)
  next
    case False
    have k: "k = nat maxIter - Suc i" using Suc.hyps(2) by simp
    have IH: "mandelbrot_loop (int (Suc i)) (orbit c (Suc i)) c =
     (case find (\<lambda>j. escaped (orbit c (Suc j))) [Suc i..<nat maxIter] of
        None \<Rightarrow> (Black, nat maxIter - Suc i)
      | Some j \<Rightarrow> (Gray (of_nat (j mod 256)), Suc j - Suc i))"
      using Suc.hyps(1)[OF k] lt by simp
    have fnd: "\<And>j. find (\<lambda>j. escaped (orbit c (Suc j))) [Suc i..<nat maxIter] = Some j \<Longrightarrow> Suc i \<le> j"
      by (auto simp: find_Some_iff)
    have step: "mandelbrot_loop (int i) (orbit c i) c =
        (case mandelbrot_loop (int (Suc i)) (orbit c (Suc i)) c of (col, n) \<Rightarrow> (col, Suc n))"
      using lt' False by (subst mandelbrot_loop_unfold) (simp add: add.commute)
    show ?thesis
    proof (cases "find (\<lambda>j. escaped (orbit c (Suc j))) [Suc i..<nat maxIter]")
      case None
      then show ?thesis using step IH upt False lt by (simp add: Suc_diff_Suc)
    next
      case (Some j)
      then have "Suc i \<le> j" by (rule fnd)
      then show ?thesis using step IH upt False Some by (simp add: Suc_diff_le)
    qed
  qed
qed


lemma mandelbrot_loop_first_escape:
  "mandelbrot_loop 0 \<lparr>Real = Finite False 0, Imag = Finite False 0\<rparr> c =
     (case first_escape c of None \<Rightarrow> (Black, nat maxIter)
      | Some j \<Rightarrow> (Gray (of_nat (j mod 256)), Suc j))"
  using mandelbrot_loop_find [of 0 c] by (simp add: first_escape_def split: option.splits)

lemma first_escape_less: "first_escape c = Some i \<Longrightarrow> i < 200"
  by (auto simp: first_escape_def find_Some_iff maxIter_def)

subsection \<open>The pixel loops\<close>

lemma for_loop_stop: "\<not> i < hi \<Longrightarrow> for_loop i hi body s = s"
  by (subst for_loop.simps) simp

lemma for_loop_step: "i < hi \<Longrightarrow> for_loop i hi body s = for_loop (i + 1) hi body (body i s)"
  by (subst for_loop.simps) simp

lemma Rect_put_pixel [simp]: "Rect (put_pixel v x y img) = Rect img"
  by (simp add: put_pixel_def)

lemma Pix_put_pixel:
  "Pix (put_pixel v x y img) p =
     (if p = (x, y) \<and> Point_In \<lparr>X = x, Y = y\<rparr> (Rect img) then v x y else Pix img p)"
  by (simp add: put_pixel_def)

lemma Rect_RGBA_Set [simp]: "Rect (RGBA_Set img x y c) = Rect img"
  by (simp add: RGBA_Set_def)

lemma seq_pixel_put: "seq_pixel src = put_pixel (\<lambda>x y. requantize (At src x y))"
  by (intro ext) (simp add: seq_pixel_def put_pixel_def RGBA_Set_def requantize_def Let_def split: prod.splits)

lemma par_pixel_put: "par_pixel src = put_pixel (\<lambda>x y. requantize (At src x y))"
  by (intro ext) (simp add: par_pixel_def put_pixel_def RGBA_Set_def requantize_def Let_def split: prod.splits)

lemma copy_put:
  "(\<lambda>y d. RGBA_Set d x y (At src x y)) = put_pixel (\<lambda>x y. rgbaModel (At src x y)) x"
  by (intro ext) (simp add: put_pixel_def RGBA_Set_def)

lemma Rect_column [simp]: "Rect (for_loop lo hi (\<lambda>y. put_pixel v x y) img) = Rect img"
proof (induction "nat (hi - lo)" arbitrary: lo img)
  case 0
  then show ?case by (simp add: for_loop_stop)
next
  case (Suc k)
  then have "lo < hi" "k = nat (hi - (lo + 1))" by simp_all
  then show ?case using Suc.hyps(1) [of "lo + 1"] by (subst for_loop_step) simp_all
qed

lemma Pix_column:
  "Pix (for_loop lo hi (\<lambda>y. put_pixel v x y) img) (a, b) =
     (if a = x \<and> lo \<le> b \<and> b < hi \<and> Point_In \<lparr>X = a, Y = b\<rparr> (Rect img) then v a b
      else Pix img (a, b))"
proof (induction "nat (hi - lo)" arbitrary: lo img)
  case 0
  then show ?case by (auto simp add: for_loop_stop)
next
  case (Suc k)
  then have "lo < hi" "k = nat (hi - (lo + 1))" by simp_all
  then show ?case using Suc.hyps(1) [of "lo + 1" "put_pixel v x lo img"]
    by (subst for_loop_step, simp, cases "b = lo") (auto simp add: Pix_put_pixel)
qed

lemma Rect_grid [simp]:
  "Rect (for_loop xlo xhi (\<lambda>x. for_loop ylo yhi (\<lambda>y. put_pixel v x y)) img) = Rect img"
proof (induction "nat (xhi - xlo)" arbitrary: xlo img)
  case 0
  then show ?case by (simp add: for_loop_stop)
next
  case (Suc k)
  then have "xlo < xhi" "k = nat (xhi - (xlo + 1))" by simp_all
  then show ?case using Suc.hyps(1) [of "xlo + 1"] by (subst for_loop_step) simp_all
qed

lemma Pix_grid:
  "Pix (for_loop xlo xhi (\<lambda>x. for_loop ylo yhi (\<lambda>y. put_pixel v x y)) img) (a, b) =
     (if xlo \<le> a \<and> a < xhi \<and> ylo \<le> b \<and> b < yhi \<and> Point_In \<lparr>X = a, Y = b\<rparr> (Rect img)
      then v a b else Pix img (a, b))"
proof (induction "nat (xhi - xlo)" arbitrary: xlo img)
  case 0
  then show ?case by (auto simp add: for_loop_stop)
next
  case (Suc k)
  then have "xlo < xhi" "k = nat (xhi - (xlo + 1))" by simp_all
  then show ?case
    using Suc.hyps(1) [of "xlo + 1" "for_loop ylo yhi (\<lambda>y. put_pixel v xlo y) img"]
    by (subst for_loop_step, simp, cases "a = xlo") (auto simp add: Pix_column)
qed

lemma Rect_seq [simp]: "Rect (generateMandelbrotSequential img src) = Rect img"
  by (simp add: generateMandelbrotSequential_def seq_pixel_put Let_def)

lemma Pix_seq:
  "Pix (generateMandelbrotSequential img src) (a, b) =
     (if Point_In \<lparr>X = a, Y = b\<rparr> (Rect img) then requantize (At src a b) else Pix img (a, b))"
  by (auto simp add: generateMandelbrotSequential_def seq_pixel_put Let_def Pix_grid Point_In_def)

lemma Rect_copy [simp]: "Rect (copyImage img src) = Rect img"
  by (simp add: copyImage_def copy_put Let_def)

lemma Pix_copy:
  "Pix (copyImage img src) (a, b) =
     (if Point_In \<lparr>X = a, Y = b\<rparr> (Rect img) then rgbaModel (At src a b) else Pix img (a, b))"
  by (auto simp add: copyImage_def copy_put Let_def Pix_grid Point_In_def)

lemma goroutines_run:
  "hi - i \<le> wg \<Longrightarrow>
   for_loop i hi
     (\<lambda>x s. case s of Inl e \<Rightarrow> Inl e | Inr st \<Rightarrow> column_goroutine src x st) (Inr (img, wg)) =
   Inr (for_loop i hi (\<lambda>x. for_loop 0 height (\<lambda>y. par_pixel src x y)) img,
        if i < hi then wg - (hi - i) else wg)"
proof (induction "nat (hi - i)" arbitrary: i img wg)
  case 0
  then show ?case by (simp add: for_loop_stop)
next
  case (Suc k)
  then have lt: "i < hi" and k: "k = nat (hi - (i + 1))" by simp_all
  have wg: "hi - (i + 1) \<le> wg - 1" using Suc.prems by simp
  have pos: "0 \<le> wg - 1" using lt Suc.prems by simp
  show ?case
    using lt pos Suc.hyps(1) [OF k wg]
    by (subst for_loop_step [OF lt], subst for_loop_step [OF lt])
       (simp add: column_goroutine_def wg_Done_def wg_Add_def Let_def)
qed

lemma par_returns:
  "generateMandelbrotParallel img src =
     Inr (for_loop 0 width (\<lambda>x. for_loop 0 height (\<lambda>y. par_pixel src x y)) img)"
  using goroutines_run [of width 0 height src img]
  by (simp add: generateMandelbrotParallel_def wg_Add_def width_def height_def)

subsection \<open>Rounding of small integers\<close>

lemma round_mag_numeral: "numeral k < (2 ^ 53 :: int) \<Longrightarrow> round_mag (numeral k) = Some (numeral k)"
  using round_mag_of_int [of "numeral k"] by simp

lemma round64_zero [simp]: "round64 s 0 = Finite s 0"
  by (simp add: round64_def round_mag_def)

lemma round64_numeral: "numeral k < (2 ^ 53 :: int) \<Longrightarrow> round64 s (numeral k) = Finite s (numeral k)"
  by (simp add: round64_def round_mag_numeral)

subsection \<open>The evaluator at the origin and at 5 + 5i\<close>

lemma square_plus_origin: "square_plus origin origin = origin"
  by (simp add: square_plus_def origin_def fsub_def signed_def)

lemma orbit_origin: "orbit origin n = origin"
  by (induction n) (simp_all add: square_plus_origin, simp add: origin_def)

lemma not_escaped_origin: "\<not> escaped origin"
  by (simp add: escaped_def origin_def signed_def)

lemma first_escape_origin: "first_escape origin = None"
  by (simp add: first_escape_def find_None_iff orbit_origin square_plus_origin not_escaped_origin)

lemma square_plus_five: "square_plus origin five_five = five_five"
  by (simp add: square_plus_def origin_def five_five_def fsub_def signed_def round64_numeral)

lemma escaped_five: "escaped five_five"
  by (simp add: escaped_def five_five_def signed_def round64_numeral)

lemma first_escape_five: "first_escape five_five = Some 0"
proof -
  have "[0..<nat maxIter] = 0 # [Suc 0..<nat maxIter]"
    by (simp add: maxIter_def upt_conv_Cons)
  then show ?thesis
    by (simp add: first_escape_def square_plus_five escaped_five origin_def [symmetric])
qed

lemma first_step_minus_two_i: "square_plus origin minus_two_i = minus_two_i"
  by (simp add: square_plus_def origin_def minus_two_i_def fsub_def signed_def round64_numeral)

lemma not_escaped_minus_two_i: "\<not> escaped minus_two_i"
  by (simp add: escaped_def minus_two_i_def signed_def round64_numeral)

lemma second_step_minus_two_i:
  "square_plus minus_two_i minus_two_i = \<lparr>Real = Finite True 4, Imag = Finite True 2\<rparr>"
  by (simp add: square_plus_def minus_two_i_def fsub_def signed_def round64_numeral)

lemma escaped_second_step: "escaped \<lparr>Real = Finite True 4, Imag = Finite True 2\<rparr>"
  by (simp add: escaped_def signed_def round64_numeral)

lemma first_escape_minus_two_i: "first_escape minus_two_i = Some 1"
proof -
  have "[0..<nat maxIter] = 0 # 1 # [2..<nat maxIter]"
    by (simp add: maxIter_def upt_conv_Cons)
  then show ?thesis
    by (simp add: first_escape_def origin_def [symmetric] first_step_minus_two_i
          not_escaped_minus_two_i second_step_minus_two_i escaped_second_step)
qed

lemma mandelbrot_escape_color: "mandelbrot c = escape_color (first_escape c)"
  by (simp add: mandelbrot_def mandelbrot_loop_first_escape escape_color_def split: option.splits)


subsection \<open>The rasters of both renderers\<close>

lemma RGBA_image_eqI: "Rect a = Rect b \<Longrightarrow> Pix a = Pix b \<Longrightarrow> a = (b :: RGBA_image)"
  by simp

lemma RGBA_At_Pix:
  "RGBA_At p x y =
     (if Point_In \<lparr>X = x, Y = y\<rparr> (Rect p) then pixel_color (Pix p (x, y)) else RGBA 0 0 0 0)"
  by (simp add: RGBA_At_def pixel_color_def)

lemma RGBA_At_seq:
  "RGBA_At (generateMandelbrotSequential img src) x y =
     (if Point_In \<lparr>X = x, Y = y\<rparr> (Rect img) then pixel_color (requantize (At src x y))
      else RGBA 0 0 0 0)"
  by (simp add: RGBA_At_Pix Pix_seq)

lemma par_result:
  "\<exists>img'. generateMandelbrotParallel img src = Inr img' \<and> Rect img' = Rect img \<and>
     (\<forall>a b. Pix img' (a, b) =
        (if in_window a b \<and> Point_In \<lparr>X = a, Y = b\<rparr> (Rect img)
         then requantize (At src a b) else Pix img (a, b)))"
  by (auto simp add: par_returns par_pixel_put Pix_grid in_window_def)

lemma window_covers:
  "rect_in_window r \<Longrightarrow> Point_In \<lparr>X = a, Y = b\<rparr> r \<Longrightarrow> in_window a b"
  by (auto simp add: rect_in_window_def Point_In_def in_window_def)

lemma par_eq_seq_in_window:
  assumes "rect_in_window (Rect img)"
  shows "generateMandelbrotParallel img src = Inr (generateMandelbrotSequential img src)"
proof -
  obtain img' where r: "generateMandelbrotParallel img src = Inr img'" "Rect img' = Rect img"
    and p: "\<And>a b. Pix img' (a, b) =
        (if in_window a b \<and> Point_In \<lparr>X = a, Y = b\<rparr> (Rect img)
         then requantize (At src a b) else Pix img (a, b))"
    using par_result [of img src] by blast
  have "Pix img' = Pix (generateMandelbrotSequential img src)"
    using window_covers [OF assms] by (auto simp add: fun_eq_iff p Pix_seq)
  then have "img' = generateMandelbrotSequential img src"
    using r(2) by (intro RGBA_image_eqI) simp_all
  then show ?thesis using r(1) by simp
qed

text \<open>Inside the window the two renderers agree; a raster within the window ends the same.\<close>

lemma renderers_agree_in_window:
  "in_window x y \<Longrightarrow> Rect img1 = Rect img2 \<Longrightarrow>
     seq_point x y = par_point x y
     \<and> mandelbrot (seq_point x y) = mandelbrot (par_point x y)
     \<and> seq_pixel src x y img1 = par_pixel src x y img1
     \<and> (\<exists>img'. generateMandelbrotParallel img2 src = Inr img' \<and> Rect img' = Rect img2 \<and>
           RGBA_At img' x y = RGBA_At (generateMandelbrotSequential img1 src) x y)
     \<and> (rect_in_window (Rect img1) \<longrightarrow>
           generateMandelbrotParallel img1 src = Inr (generateMandelbrotSequential img1 src))"
proof -
  assume w: "in_window x y" and r: "Rect img1 = Rect img2"
  have pt: "seq_point x y = par_point x y" by (simp add: seq_point_def par_point_def)
  have px: "seq_pixel src x y img1 = par_pixel src x y img1"
    by (simp add: seq_pixel_put par_pixel_put)
  obtain img' where res: "generateMandelbrotParallel img2 src = Inr img'" "Rect img' = Rect img2"
    and p: "\<And>a b. Pix img' (a, b) =
        (if in_window a b \<and> Point_In \<lparr>X = a, Y = b\<rparr> (Rect img2)
         then requantize (At src a b) else Pix img2 (a, b))"
    using par_result [of img2 src] by blast
  have at: "RGBA_At img' x y = RGBA_At (generateMandelbrotSequential img1 src) x y"
    using w r by (simp add: RGBA_At_seq) (simp add: RGBA_At_Pix res(2) p)
  show ?thesis using pt px res at par_eq_seq_in_window [of img1 src] by auto
qed

subsection \<open>The coordinates of a pixel\<close>






subsection \<open>The interleaved renderer\<close>

lemma par_invD:
  assumes "par_inv src img s"
  shows "0 \<le> started s" and "started s \<le> width"
    and "\<And>x. progress s x \<noteq> Pending \<longleftrightarrow> 0 \<le> x \<and> x < started s"
    and "\<And>x y. progress s x = Running y \<Longrightarrow> 0 \<le> y \<and> y \<le> height"
    and "counter s = height - int (card {x. progress s x = Finished})"
    and "Rect (raster s) = Rect img"
    and "\<And>a b. Pix (raster s) (a, b) =
           (if Point_In \<lparr>X = a, Y = b\<rparr> (Rect img) \<and> treated (progress s a) b
            then requantize (At src a b) else Pix img (a, b))"
    and "returned s \<Longrightarrow> counter s = 0 \<and> started s = width"
    and "\<not> panicked s"
proof -
  have r: "\<forall>x y. progress s x = Running y \<longrightarrow> 0 \<le> y \<and> y \<le> height"
    using assms unfolding par_inv_def by (elim conjE)
  show "0 \<le> y \<and> y \<le> height" if "progress s x = Running y" for x y
    using r that by blast
  have p: "\<forall>a b. Pix (raster s) (a, b) =
           (if Point_In \<lparr>X = a, Y = b\<rparr> (Rect img) \<and> treated (progress s a) b
            then requantize (At src a b) else Pix img (a, b))"
    using assms unfolding par_inv_def by (elim conjE)
  show "Pix (raster s) (a, b) =
           (if Point_In \<lparr>X = a, Y = b\<rparr> (Rect img) \<and> treated (progress s a) b
            then requantize (At src a b) else Pix img (a, b))" for a b
    using p by (elim allE)
  have q: "\<forall>x. progress s x \<noteq> Pending \<longleftrightarrow> 0 \<le> x \<and> x < started s"
    using assms unfolding par_inv_def by (elim conjE)
  show "progress s x \<noteq> Pending \<longleftrightarrow> 0 \<le> x \<and> x < started s" for x
    using q by (elim allE)
  have t: "returned s \<longrightarrow> counter s = 0 \<and> started s = width"
    using assms unfolding par_inv_def by (elim conjE)
  show "counter s = 0 \<and> started s = width" if "returned s"
    using t that by (elim impE)
  show "0 \<le> started s" using assms unfolding par_inv_def by (elim conjE)
  show "started s \<le> width" using assms unfolding par_inv_def by (elim conjE)
  show "counter s = height - int (card {x. progress s x = Finished})"
    using assms unfolding par_inv_def by (elim conjE)
  show "Rect (raster s) = Rect img" using assms unfolding par_inv_def by (elim conjE)
  show "\<not> panicked s" using assms unfolding par_inv_def by (elim conjE)
qed

lemma par_invI:
  assumes a1: "0 \<le> started s" and a2: "started s \<le> width"
    and a3: "\<And>x. progress s x \<noteq> Pending \<longleftrightarrow> 0 \<le> x \<and> x < started s"
    and a4: "\<And>x y. progress s x = Running y \<Longrightarrow> 0 \<le> y \<and> y \<le> height"
    and a5: "counter s = height - int (card {x. progress s x = Finished})"
    and a6: "Rect (raster s) = Rect img"
    and a7: "\<And>a b. Pix (raster s) (a, b) =
           (if Point_In \<lparr>X = a, Y = b\<rparr> (Rect img) \<and> treated (progress s a) b
            then requantize (At src a b) else Pix img (a, b))"
    and a8: "returned s \<Longrightarrow> counter s = 0 \<and> started s = width"
    and a9: "\<not> panicked s"
  shows "par_inv src img s"
  unfolding par_inv_def
proof (intro conjI)
  show "0 \<le> started s" by (rule a1)
  show "started s \<le> width" by (rule a2)
  show "\<forall>x. progress s x \<noteq> Pending \<longleftrightarrow> 0 \<le> x \<and> x < started s"
    by (intro allI) (rule a3)
  show "\<forall>x y. progress s x = Running y \<longrightarrow> 0 \<le> y \<and> y \<le> height"
    by (intro allI impI) (rule a4)
  show "counter s = height - int (card {x. progress s x = Finished})" by (rule a5)
  show "Rect (raster s) = Rect img" by (rule a6)
  show "\<forall>a b. Pix (raster s) (a, b) =
           (if Point_In \<lparr>X = a, Y = b\<rparr> (Rect img) \<and> treated (progress s a) b
            then requantize (At src a b) else Pix img (a, b))"
    by (intro allI) (rule a7)
  show "returned s \<longrightarrow> counter s = 0 \<and> started s = width"
    by (intro impI) (rule a8)
  show "\<not> panicked s" by (rule a9)
qed

lemma par_inv_init: "par_inv src img (par_init img)"
  by (rule par_invI) (simp_all add: par_init_def width_def)

lemma finished_subset:
  assumes inv: "par_inv src img s"
  shows "{x. progress s x = Finished} \<subseteq> {0..<started s}"
proof
  fix x
  assume "x \<in> {x. progress s x = Finished}"
  then have "progress s x \<noteq> Pending" by simp
  then have "0 \<le> x \<and> x < started s" using par_invD(3) [OF inv, of x] by simp
  then show "x \<in> {0..<started s}" by simp
qed

lemma finished_finite:
  assumes "par_inv src img s"
  shows "finite {x. progress s x = Finished}"
  using finished_subset [OF assms] by (rule finite_subset) simp

lemma wg_Done_Inr: "wg_Done c = Inr n \<longleftrightarrow> n = c - 1 \<and> 0 \<le> c - 1"
  by (auto simp add: wg_Done_def wg_Add_def)

lemma wg_Done_Inl: "wg_Done c = Inl e \<Longrightarrow> c < 1"
  by (auto simp add: wg_Done_def wg_Add_def split: if_splits)

lemma running_counter_pos:
  assumes inv: "par_inv src img s" and run: "progress s x = Running y"
  shows "1 \<le> counter s"
proof -
  have "progress s x \<noteq> Pending" using run by simp
  then have x: "0 \<le> x" "x < started s" using par_invD(3) [OF inv, of x] by simp_all
  have "{x. progress s x = Finished} \<subseteq> {0..<started s} - {x}"
    using finished_subset [OF inv] run by auto
  then have "card {x. progress s x = Finished} \<le> card ({0..<started s} - {x})"
    by (intro card_mono) simp_all
  also have "\<dots> = nat (started s) - 1" using x by simp
  finally have "int (card {x. progress s x = Finished}) \<le> started s - 1" using x by simp
  moreover have "started s \<le> width" using par_invD(2) [OF inv] .
  ultimately show ?thesis using par_invD(5) [OF inv] by (simp add: width_def height_def)
qed

lemma par_inv_launch:
  assumes inv: "par_inv src img s" and lt: "started s < width"
  shows "par_inv src img
           (s\<lparr>started := started s + 1, progress := (progress s)(started s := Running 0)\<rparr>)"
proof (rule par_invI)
  note d = par_invD [OF inv]
  have pend: "progress s (started s) = Pending" using d(3) [of "started s"] by simp
  let ?s = "s\<lparr>started := started s + 1, progress := (progress s)(started s := Running 0)\<rparr>"
  show "0 \<le> started ?s" using d(1) by simp
  show "started ?s \<le> width" using lt by simp
  show "progress ?s x \<noteq> Pending \<longleftrightarrow> 0 \<le> x \<and> x < started ?s" for x
  proof (cases "x = started s")
    case True
    then show ?thesis using d(1) by simp
  next
    case False
    then have "x < started s + 1 \<longleftrightarrow> x < started s" by arith
    then show ?thesis using False d(3) [of x] by simp
  qed
  show "0 \<le> y \<and> y \<le> height" if "progress ?s x = Running y" for x y
    using that d(4) [of x y] by (cases "x = started s") (simp_all add: height_def)
  have same: "{x. progress ?s x = Finished} = {x. progress s x = Finished}"
    using pend by auto
  show "counter ?s = height - int (card {x. progress ?s x = Finished})"
    using d(5) by (simp only: same) simp
  show "Rect (raster ?s) = Rect img" using d(6) by simp
  show "Pix (raster ?s) (a, b) =
           (if Point_In \<lparr>X = a, Y = b\<rparr> (Rect img) \<and> treated (progress ?s a) b
            then requantize (At src a b) else Pix img (a, b))" for a b
  proof (cases "a = started s")
    case True
    have f: "(0 \<le> b \<and> b < 0) = False" by auto
    show ?thesis using d(7) [of a b] pend True by (simp add: f)
  next
    case False
    then show ?thesis using d(7) [of a b] by simp
  qed
  show "counter ?s = 0 \<and> started ?s = width" if "returned ?s"
    using that d(8) lt by simp
  show "\<not> panicked ?s" using d(9) by simp
qed

lemma par_inv_pixel:
  assumes inv: "par_inv src img s" and run: "progress s x = Running y" and lt: "y < height"
  shows "par_inv src img
           (s\<lparr>raster := par_pixel src x y (raster s),
              progress := (progress s)(x := Running (y + 1))\<rparr>)"
proof (rule par_invI)
  note d = par_invD [OF inv]
  have y: "0 \<le> y" using d(4) [OF run] by simp
  let ?s = "s\<lparr>raster := par_pixel src x y (raster s),
              progress := (progress s)(x := Running (y + 1))\<rparr>"
  show "0 \<le> started ?s" using d(1) by simp
  show "started ?s \<le> width" using d(2) by simp
  show "progress ?s a \<noteq> Pending \<longleftrightarrow> 0 \<le> a \<and> a < started ?s" for a
    using d(3) [of a] run by (cases "a = x") simp_all
  show "0 \<le> b \<and> b \<le> height" if "progress ?s a = Running b" for a b
    using that d(4) [of a b] y lt by (cases "a = x") auto
  have same: "{a. progress ?s a = Finished} = {a. progress s a = Finished}"
    using run by auto
  show "counter ?s = height - int (card {a. progress ?s a = Finished})"
    using d(5) by (simp only: same) simp
  show "Rect (raster ?s) = Rect img" using d(6) by (simp add: par_pixel_put)
  show "Pix (raster ?s) (a, b) =
           (if Point_In \<lparr>X = a, Y = b\<rparr> (Rect img) \<and> treated (progress ?s a) b
            then requantize (At src a b) else Pix img (a, b))" for a b
  proof (cases "a = x")
    case False
    then show ?thesis using d(7) [of a b] by (simp add: par_pixel_put Pix_put_pixel)
  next
    case True
    show ?thesis
    proof (cases "b = y")
      case True
      then show ?thesis
        using \<open>a = x\<close> y d(6) d(7) [of a b] by (simp add: par_pixel_put Pix_put_pixel)
    next
      case False
      then have "(0 \<le> b \<and> b < y + 1) = (0 \<le> b \<and> b < y)" by auto
      then show ?thesis
        using \<open>a = x\<close> False run d(7) [of a b] by (simp add: par_pixel_put Pix_put_pixel)
    qed
  qed
  show "counter ?s = 0 \<and> started ?s = width" if "returned ?s"
    using that d(8) by simp
  show "\<not> panicked ?s" using d(9) by simp
qed

lemma par_inv_finish:
  assumes inv: "par_inv src img s" and run: "progress s x = Running y" and ge: "\<not> y < height"
    and dn: "wg_Done (counter s) = Inr n"
  shows "par_inv src img (s\<lparr>counter := n, progress := (progress s)(x := Finished)\<rparr>)"
proof (rule par_invI)
  note d = par_invD [OF inv]
  have n: "n = counter s - 1" "0 \<le> counter s - 1" using dn by (simp_all add: wg_Done_Inr)
  have y: "y = height" using d(4) [OF run] ge by simp
  let ?s = "s\<lparr>counter := n, progress := (progress s)(x := Finished)\<rparr>"
  show "0 \<le> started ?s" using d(1) by simp
  show "started ?s \<le> width" using d(2) by simp
  show "progress ?s a \<noteq> Pending \<longleftrightarrow> 0 \<le> a \<and> a < started ?s" for a
    using d(3) [of a] run by (cases "a = x") simp_all
  show "0 \<le> b \<and> b \<le> height" if "progress ?s a = Running b" for a b
    using that d(4) [of a b] by (cases "a = x") simp_all
  have ins: "{a. progress ?s a = Finished} = insert x {a. progress s a = Finished}"
    by auto
  have notin: "x \<notin> {a. progress s a = Finished}" using run by simp
  have cd: "card {a. progress ?s a = Finished} = Suc (card {a. progress s a = Finished})"
    using card_insert_disjoint [OF finished_finite [OF inv] notin] by (simp only: ins)
  have c1: "counter ?s = counter s - 1" using n(1) by simp
  have c2: "int (card {a. progress ?s a = Finished}) =
            int (card {a. progress s a = Finished}) + 1"
    unfolding cd by simp
  show "counter ?s = height - int (card {a. progress ?s a = Finished})"
    unfolding c1 c2 using d(5) by simp
  show "Rect (raster ?s) = Rect img" using d(6) by simp
  show "Pix (raster ?s) (a, b) =
           (if Point_In \<lparr>X = a, Y = b\<rparr> (Rect img) \<and> treated (progress ?s a) b
            then requantize (At src a b) else Pix img (a, b))" for a b
    using d(7) [of a b] run y by (cases "a = x") simp_all
  show "counter ?s = 0 \<and> started ?s = width" if "returned ?s"
    using that d(8) n by simp
  show "\<not> panicked ?s" using d(9) by simp
qed

lemma par_inv_step:
  assumes inv: "par_inv src img s" and st: "par_step src s s'"
  shows "par_inv src img s'"
  using st
proof cases
  case launch
  show ?thesis unfolding launch(1) by (rule par_inv_launch [OF inv launch(2)])
next
  case (pixel x y)
  show ?thesis unfolding pixel(1) by (rule par_inv_pixel [OF inv pixel(2,3)])
next
  case (finish x y n)
  show ?thesis unfolding finish(1) by (rule par_inv_finish [OF inv finish(2,3,4)])
next
  case (finish_panic x y e)
  have "1 \<le> counter s" using running_counter_pos [OF inv finish_panic(2)] .
  moreover have "counter s < 1" using finish_panic(4) by (rule wg_Done_Inl)
  ultimately show ?thesis by simp
next
  case wait
  note d = par_invD [OF inv]
  have w: "started s = width" using wait(2) d(2) by simp
  show ?thesis
    unfolding wait(1)
  proof (rule par_invI)
    show "0 \<le> started (s\<lparr>returned := True\<rparr>)" using d(1) by simp
    show "started (s\<lparr>returned := True\<rparr>) \<le> width" using d(2) by simp
    show "progress (s\<lparr>returned := True\<rparr>) x \<noteq> Pending \<longleftrightarrow>
          0 \<le> x \<and> x < started (s\<lparr>returned := True\<rparr>)" for x
      using d(3) [of x] by simp
    show "0 \<le> y \<and> y \<le> height" if "progress (s\<lparr>returned := True\<rparr>) x = Running y" for x y
      using that d(4) [of x y] by simp
    show "counter (s\<lparr>returned := True\<rparr>) =
          height - int (card {x. progress (s\<lparr>returned := True\<rparr>) x = Finished})"
      using d(5) by simp
    show "Rect (raster (s\<lparr>returned := True\<rparr>)) = Rect img" using d(6) by simp
    show "Pix (raster (s\<lparr>returned := True\<rparr>)) (a, b) =
           (if Point_In \<lparr>X = a, Y = b\<rparr> (Rect img) \<and> treated (progress (s\<lparr>returned := True\<rparr>) a) b
            then requantize (At src a b) else Pix img (a, b))" for a b
      using d(7) [of a b] by simp
    show "counter (s\<lparr>returned := True\<rparr>) = 0 \<and> started (s\<lparr>returned := True\<rparr>) = width"
      using wait(3) w by simp
    show "\<not> panicked (s\<lparr>returned := True\<rparr>)" using d(9) by simp
  qed
qed

lemma par_inv_reachable: "par_reachable src img s \<Longrightarrow> par_inv src img s"
proof (induction rule: par_reachable.induct)
  case start
  show ?case by (rule par_inv_init)
next
  case (step s s')
  show ?case using step.IH step.hyps(2) by (rule par_inv_step)
qed

lemma finished_in_width:
  assumes inv: "par_inv src img s"
  shows "{x. progress s x = Finished} \<subseteq> {0..<width}"
proof -
  have "{0..<started s} \<subseteq> {0..<width}" using par_invD(2) [OF inv] by simp
  then show ?thesis using finished_subset [OF inv] by (rule order_trans [rotated])
qed

lemma counter_zero_iff:
  assumes inv: "par_inv src img s"
  shows "counter s = 0 \<longleftrightarrow> (\<forall>x. 0 \<le> x \<and> x < width \<longrightarrow> progress s x = Finished)"
proof
  have fin: "finite {0..<width}" by simp
  have cb: "card {0..<width} = 800" by (simp add: width_def)
  assume "counter s = 0"
  then have c: "card {x. progress s x = Finished} = 800"
    using par_invD(5) [OF inv] by (simp add: height_def)
  have eq: "{x. progress s x = Finished} = {0..<width}"
    by (rule card_subset_eq [OF fin finished_in_width [OF inv]]) (simp only: c cb)
  show "\<forall>x. 0 \<le> x \<and> x < width \<longrightarrow> progress s x = Finished"
  proof (intro allI impI)
    fix x
    assume "0 \<le> x \<and> x < width"
    then have "x \<in> {0..<width}" by simp
    then have "x \<in> {x. progress s x = Finished}" by (simp only: eq)
    then show "progress s x = Finished" by simp
  qed
next
  have cb: "card {0..<width} = 800" by (simp add: width_def)
  assume all: "\<forall>x. 0 \<le> x \<and> x < width \<longrightarrow> progress s x = Finished"
  have "{0..<width} \<subseteq> {x. progress s x = Finished}"
  proof
    fix x
    assume "x \<in> {0..<width}"
    then have "0 \<le> x \<and> x < width" by simp
    then have "progress s x = Finished" using all by blast
    then show "x \<in> {x. progress s x = Finished}" by simp
  qed
  then have "{x. progress s x = Finished} = {0..<width}"
    using finished_in_width [OF inv] by (rule subset_antisym [rotated])
  then have "card {x. progress s x = Finished} = 800" by (simp only: cb)
  then show "counter s = 0" using par_invD(5) [OF inv] by (simp add: height_def)
qed

lemma finished_raster:
  assumes inv: "par_inv src img s"
    and all: "\<forall>x. 0 \<le> x \<and> x < width \<longrightarrow> progress s x = Finished"
  shows "generateMandelbrotParallel img src = Inr (raster s)"
proof -
  note d = par_invD [OF inv]
  obtain img' where r: "generateMandelbrotParallel img src = Inr img'" "Rect img' = Rect img"
    and p: "\<And>a b. Pix img' (a, b) =
        (if in_window a b \<and> Point_In \<lparr>X = a, Y = b\<rparr> (Rect img)
         then requantize (At src a b) else Pix img (a, b))"
    using par_result [of img src] by blast
  have tr: "treated (progress s a) b \<longleftrightarrow> in_window a b" for a b
  proof (cases "0 \<le> a \<and> a < width")
    case True
    then have "progress s a = Finished" using all by blast
    then show ?thesis using True by (simp add: in_window_def)
  next
    case False
    then have "\<not> (0 \<le> a \<and> a < started s)" using d(2) by auto
    then have "progress s a = Pending" using d(3) [of a] by blast
    then show ?thesis using False by (auto simp add: in_window_def)
  qed
  have "Pix (raster s) = Pix img'"
  proof (rule ext)
    fix q :: "int \<times> int"
    obtain a b where q: "q = (a, b)" by (cases q)
    show "Pix (raster s) q = Pix img' q"
      unfolding q d(7) p tr by (simp add: conj_commute)
  qed
  then have "raster s = img'" using d(6) r(2) by (intro RGBA_image_eqI) simp_all
  then show ?thesis using r(1) by simp
qed

subsection \<open>A schedule that returns\<close>

lemma column_runs:
  assumes "par_reachable src img s" and "progress s x = Running y" and "y \<le> height"
  shows "\<exists>s'. par_reachable src img s' \<and> progress s' = (progress s)(x := Running height)
           \<and> started s' = started s \<and> counter s' = counter s \<and> returned s' = returned s"
  using assms
proof (induction "nat (height - y)" arbitrary: s y)
  case 0
  then have "y = height" by simp
  then have "(progress s)(x := Running height) = progress s"
    using "0.prems"(2) by (simp add: fun_upd_idem)
  then show ?case using "0.prems"(1) by auto
next
  case (Suc k)
  then have lt: "y < height" by simp
  let ?s1 = "s\<lparr>raster := par_pixel src x y (raster s),
               progress := (progress s)(x := Running (y + 1))\<rparr>"
  have r1: "par_reachable src img ?s1"
    using Suc.prems(1) par_step.pixel [OF Suc.prems(2) lt] by (rule par_reachable.step)
  have k: "k = nat (height - (y + 1))" using Suc.hyps(2) by simp
  have p1: "progress ?s1 x = Running (y + 1)" by simp
  have le: "y + 1 \<le> height" using lt by simp
  obtain s' where s': "par_reachable src img s'"
      "progress s' = (progress ?s1)(x := Running height)"
      "started s' = started ?s1" "counter s' = counter ?s1" "returned s' = returned ?s1"
    using Suc.hyps(1) [OF k r1 p1 le] by blast
  have "progress s' = (progress s)(x := Running height)" using s'(2) by simp
  then show ?case using s'(1,3,4,5) by auto
qed

lemma column_finishes:
  assumes r: "par_reachable src img s" and lt: "started s < width"
  shows "\<exists>s'. par_reachable src img s' \<and> progress s' = (progress s)(started s := Finished)
           \<and> started s' = started s + 1 \<and> returned s' = returned s"
proof -
  let ?x = "started s"
  let ?s1 = "s\<lparr>started := started s + 1, progress := (progress s)(?x := Running 0)\<rparr>"
  have r1: "par_reachable src img ?s1"
    using r par_step.launch [OF lt] by (rule par_reachable.step)
  have p1: "progress ?s1 ?x = Running 0" by simp
  obtain s2 where s2: "par_reachable src img s2"
      "progress s2 = (progress ?s1)(?x := Running height)"
      "started s2 = started ?s1" "counter s2 = counter ?s1" "returned s2 = returned ?s1"
    using column_runs [OF r1 p1] by (auto simp add: height_def)
  have p2: "progress s2 ?x = Running height" using s2(2) by simp
  have "1 \<le> counter s2" using running_counter_pos [OF par_inv_reachable [OF s2(1)] p2] .
  then have dn: "wg_Done (counter s2) = Inr (counter s2 - 1)" by (simp add: wg_Done_Inr)
  let ?s3 = "s2\<lparr>counter := counter s2 - 1, progress := (progress s2)(?x := Finished)\<rparr>"
  have r3: "par_reachable src img ?s3"
    using s2(1) par_step.finish [OF p2 _ dn] by (rule par_reachable.step) simp
  have "progress ?s3 = (progress s)(?x := Finished)" using s2(2) by simp
  moreover have "started ?s3 = started s + 1" using s2(3) by simp
  moreover have "returned ?s3 = returned s" using s2(5) by simp
  ultimately show ?thesis using r3 by blast
qed

lemma all_columns_finish:
  assumes "par_reachable src img s" and "0 \<le> started s" and "started s \<le> width"
    and "\<forall>x. 0 \<le> x \<and> x < started s \<longrightarrow> progress s x = Finished"
  shows "\<exists>s'. par_reachable src img s' \<and> started s' = width \<and> returned s' = returned s
           \<and> (\<forall>x. 0 \<le> x \<and> x < width \<longrightarrow> progress s' x = Finished)"
  using assms
proof (induction "nat (width - started s)" arbitrary: s)
  case 0
  then have "started s = width" by simp
  then show ?case using "0.prems" by auto
next
  case (Suc k)
  then have lt: "started s < width" by simp
  obtain s1 where s1: "par_reachable src img s1"
      "progress s1 = (progress s)(started s := Finished)"
      "started s1 = started s + 1" "returned s1 = returned s"
    using column_finishes [OF Suc.prems(1) lt] by blast
  have k: "k = nat (width - started s1)" using Suc.hyps(2) s1(3) by simp
  have a: "\<forall>x. 0 \<le> x \<and> x < started s1 \<longrightarrow> progress s1 x = Finished"
  proof (intro allI impI)
    fix x
    assume "0 \<le> x \<and> x < started s1"
    then have "x = started s \<or> (0 \<le> x \<and> x < started s)" using s1(3) by auto
    then show "progress s1 x = Finished" using Suc.prems(4) s1(2) by auto
  qed
  have b: "0 \<le> started s1" "started s1 \<le> width" using Suc.prems(2) lt s1(3) by simp_all
  obtain s' where "par_reachable src img s'" "started s' = width" "returned s' = returned s1"
      "\<forall>x. 0 \<le> x \<and> x < width \<longrightarrow> progress s' x = Finished"
    using Suc.hyps(1) [OF k s1(1) b a] by blast
  then show ?case using s1(4) by auto
qed

lemma returning_run: "\<exists>s. par_reachable src img s \<and> returned s"
proof -
  have r0: "par_reachable src img (par_init img)" by (rule par_reachable.start)
  have i0: "0 \<le> started (par_init img)" "started (par_init img) \<le> width"
    by (simp_all add: par_init_def width_def)
  have i1: "\<forall>x. 0 \<le> x \<and> x < started (par_init img) \<longrightarrow> progress (par_init img) x = Finished"
    by (simp add: par_init_def)
  obtain s where s: "par_reachable src img s" "started s = width"
      "returned s = returned (par_init img)"
      "\<forall>x. 0 \<le> x \<and> x < width \<longrightarrow> progress s x = Finished"
    using all_columns_finish [OF r0 i0 i1] by blast
  have c: "counter s = 0"
    using counter_zero_iff [OF par_inv_reachable [OF s(1)]] s(4) by (rule iffD2)
  have nr: "\<not> returned s" using s(3) by (simp add: par_init_def)
  have sw: "\<not> started s < width" using s(2) by simp
  have "par_step src s (s\<lparr>returned := True\<rparr>)"
    using sw c nr by (rule par_step.wait)
  with s(1) have r: "par_reachable src img (s\<lparr>returned := True\<rparr>)"
    by (rule par_reachable.step)
  have rr: "returned (s\<lparr>returned := True\<rparr>)" by simp
  show ?thesis using r rr by blast
qed

subsection \<open>The presets\<close>

lemma levelFiles_cases:
  "levelFiles k = Some f \<Longrightarrow>
     (k = ''easy'' \<and> f = ''photos/easy.png'') \<or> (k = ''normal'' \<and> f = ''photos/normal.png'')
     \<or> (k = ''hard'' \<and> f = ''photos/hard.png'')"
  by (auto simp add: levelFiles_def split: if_splits)

lemma dom_levelFiles: "dom levelFiles = {''easy'', ''normal'', ''hard''}"
  by (auto simp add: levelFiles_def split: if_splits)

lemma finite_dom_levelFiles: "finite (dom levelFiles)"
  by (simp add: dom_levelFiles)

lemma input_not_result: "levelFiles k = Some f \<Longrightarrow> f \<noteq> result_path k' name"
  by (auto dest!: levelFiles_cases simp add: result_path_def)

lemma input_not_own:
  "levelFiles k = Some f \<Longrightarrow> f \<noteq> sequential_path k' \<and> f \<noteq> parallel_path k'"
  by (simp add: sequential_path_def parallel_path_def input_not_result)

lemma sequential_path_inj: "sequential_path k = sequential_path k' \<Longrightarrow> k = k'"
  by (simp add: sequential_path_def result_path_def)

lemma parallel_path_inj: "parallel_path k = parallel_path k' \<Longrightarrow> k = k'"
  by (simp add: parallel_path_def result_path_def)

lemma sequential_not_parallel: "sequential_path k \<noteq> parallel_path k'"
proof
  assume "sequential_path k = parallel_path k'"
  then have "rev (sequential_path k) = rev (parallel_path k')" by simp
  then show False by (simp add: sequential_path_def parallel_path_def result_path_def)
qed

lemma own_paths_disjoint:
  assumes "k \<noteq> k'" and "p = sequential_path k \<or> p = parallel_path k"
  shows "p \<noteq> sequential_path k' \<and> p \<noteq> parallel_path k'"
  using assms sequential_path_inj [of k k'] parallel_path_inj [of k k']
    sequential_not_parallel [of k k'] sequential_not_parallel [of k' k]
  by metis

subsection \<open>The actions of a goroutine\<close>

lemma saveImage_own:
  "p = sequential_path k \<or> p = parallel_path k \<Longrightarrow> a \<in> set (saveImage e img p) \<Longrightarrow> own_action k a"
  by (auto simp add: saveImage_def split: option.splits prod.splits)

lemma processImage_shape:
  "\<exists>body. processImage e k r = body @ [Done_wg] \<and> (\<forall>a \<in> set body. own_action k a)"
proof (cases r)
  case (Inl err)
  then show ?thesis by (simp add: processImage_def)
next
  case (Inr bytes)
  show ?thesis
  proof (cases "Decode e bytes")
    case (Inl err)
    then show ?thesis using Inr by (simp add: processImage_def)
  next
    case (Inr src)
    define s1 where "s1 = saveImage e
        (generateMandelbrotSequential (copyImage (NewRGBA (Bounds src)) src) src) (sequential_path k)"
    define s2 where "s2 = saveImage e
        (for_loop 0 width (\<lambda>x. for_loop 0 height (\<lambda>y. par_pixel src x y))
           (copyImage (NewRGBA (Bounds src)) src)) (parallel_path k)"
    define body where "body = [Allocate, Allocate] @ s1
        @ [Print (SequentialElapsed k (sequential_time e k))] @ s2
        @ [Print (ParallelElapsed k (parallel_time e k))]"
    have eq: "processImage e k r = body @ [Done_wg]"
      using \<open>r = Inr bytes\<close> Inr
      by (simp add: processImage_def Let_def par_returns body_def s1_def s2_def
          sequential_path_def parallel_path_def)
    have o1: "\<forall>a \<in> set s1. own_action k a"
      unfolding s1_def using saveImage_own [of "sequential_path k" k] by blast
    have o2: "\<forall>a \<in> set s2. own_action k a"
      unfolding s2_def using saveImage_own [of "parallel_path k" k] by blast
    have "\<forall>a \<in> set body. own_action k a"
      using o1 o2 by (auto simp add: body_def)
    then show ?thesis using eq by blast
  qed
qed

lemma script_next:
  assumes "past @ a # rest = body @ [x]"
  shows "(rest = [] \<and> a = x \<and> past = body) \<or> (rest \<noteq> [] \<and> a \<in> set body)"
proof (cases rest rule: rev_cases)
  case Nil
  then show ?thesis using assms by simp
next
  case (snoc ys y)
  then have "(past @ a # ys) @ [y] = body @ [x]" using assms by simp
  then have "past @ a # ys = body" by (simp only: append1_eq_conv)
  then have "a \<in> set body" by auto
  then show ?thesis using snoc by simp
qed

lemma processImage_next:
  assumes "past @ a # rest = processImage e k r"
  shows "(rest = [] \<and> a = Done_wg) \<or> (rest \<noteq> [] \<and> own_action k a)"
proof -
  obtain body where b: "processImage e k r = body @ [Done_wg]" "\<forall>a \<in> set body. own_action k a"
    using processImage_shape [of e k r] by blast
  show ?thesis using script_next [of past a rest body Done_wg] assms b by auto
qed

lemma processImage_not_Nil: "processImage e k r \<noteq> []"
  using processImage_shape [of e k r] by auto

subsection \<open>The effect of an action\<close>

lemma files_after_append: "files_after (xs @ ys) m = files_after ys (files_after xs m)"
  by (induction xs m rule: files_after.induct) (simp_all add: fun_upd_def)

lemma files_after_one:
  "files_after [a] m p =
     (case a of Create q \<Rightarrow> if p = q then Some [] else m p
      | Write q b \<Rightarrow> if p = q then Some b else m p | _ \<Rightarrow> m p)"
  by (cases a) simp_all

lemma files_after_snoc:
  "m' p = files_after past m p \<Longrightarrow> files_after [a] m' p = files_after (past @ [a]) m p"
  by (simp only: files_after_append files_after_one split: action.splits)

lemma perform_files: "perform a w = Inr w' \<Longrightarrow> files w' = files_after [a] (files w)"
  by (cases a) (auto simp add: Println_def split: sum.splits)

lemma perform_stdout:
  "perform a w = Inr w' \<Longrightarrow> l \<in> set (stdout w') \<longleftrightarrow> l \<in> set (stdout w) \<or> a = Print l"
  by (cases a) (auto simp add: Println_def split: sum.splits)

lemma own_action_returns: "own_action k a \<Longrightarrow> \<exists>w'. perform a w = Inr w'"
  by (cases a) simp_all

lemma own_action_counter: "own_action k a \<Longrightarrow> perform a w = Inr w' \<Longrightarrow> main_wg w' = main_wg w"
  by (cases a) (auto simp add: Println_def)

lemma own_action_files:
  "own_action k a \<Longrightarrow> p \<noteq> sequential_path k \<Longrightarrow> p \<noteq> parallel_path k \<Longrightarrow>
   files_after [a] m p = m p"
  by (cases a) auto

lemma own_action_timing: "own_action k (Print l) \<Longrightarrow> timing_of k' l \<Longrightarrow> k' = k"
  by (simp add: timing_of_def)

lemma perform_Done:
  "perform Done_wg w = Inr w' \<longleftrightarrow> w' = w\<lparr>main_wg := main_wg w - 1\<rparr> \<and> 1 \<le> main_wg w"
  by (auto simp add: wg_Done_def wg_Add_def)

lemma perform_Done_Inl: "perform Done_wg w = Inl f \<Longrightarrow> main_wg w < 1"
  by (auto simp add: wg_Done_def wg_Add_def split: if_splits)

subsection \<open>The invariant of \<^verbatim>\<open>main\<close>\<close>

lemma main_invD:
  assumes "main_inv e fs s"
  shows "\<not> crashed s"
    and "unvisited s \<subseteq> dom levelFiles"
    and "\<And>k f. levelFiles k = Some f \<Longrightarrow> files (shared s) f = fs f"
    and "\<And>k. procs s k = None \<longleftrightarrow> k \<notin> dom levelFiles \<or> k \<in> unvisited s \<or> pc s = Spawning k"
    and "\<And>k. pc s = Spawning k \<Longrightarrow> k \<in> dom levelFiles \<and> k \<notin> unvisited s"
    and "pc s = Waiting \<or> pc s = Returned \<Longrightarrow> unvisited s = {}"
    and "pc s = Returned \<Longrightarrow> main_wg (shared s) = 0"
    and "main_wg (shared s) = int (card (pending s))"
    and "\<And>k f. levelFiles k = Some f \<Longrightarrow> \<exists>past. proc_ok e fs s k f past"
proof -
  have a: "\<forall>k f. levelFiles k = Some f \<longrightarrow> files (shared s) f = fs f"
    using assms unfolding main_inv_def by (elim conjE)
  show "files (shared s) f = fs f" if "levelFiles k = Some f" for k f
    using a that by blast
  have b: "\<forall>k. procs s k = None \<longleftrightarrow> k \<notin> dom levelFiles \<or> k \<in> unvisited s \<or> pc s = Spawning k"
    using assms unfolding main_inv_def by (elim conjE)
  show "procs s k = None \<longleftrightarrow> k \<notin> dom levelFiles \<or> k \<in> unvisited s \<or> pc s = Spawning k" for k
    using b by (elim allE)
  have c: "\<forall>k. pc s = Spawning k \<longrightarrow> k \<in> dom levelFiles \<and> k \<notin> unvisited s"
    using assms unfolding main_inv_def by (elim conjE)
  show "k \<in> dom levelFiles \<and> k \<notin> unvisited s" if "pc s = Spawning k" for k
    using c that by blast
  have d: "pc s = Waiting \<or> pc s = Returned \<longrightarrow> unvisited s = {}"
    using assms unfolding main_inv_def by (elim conjE)
  show "unvisited s = {}" if "pc s = Waiting \<or> pc s = Returned"
    using d that by (elim impE)
  have r: "pc s = Returned \<longrightarrow> main_wg (shared s) = 0"
    using assms unfolding main_inv_def by (elim conjE)
  show "main_wg (shared s) = 0" if "pc s = Returned"
    using r that by (elim impE)
  have p: "\<forall>k f. levelFiles k = Some f \<longrightarrow> (\<exists>past. proc_ok e fs s k f past)"
    using assms unfolding main_inv_def by (elim conjE)
  show "\<exists>past. proc_ok e fs s k f past" if "levelFiles k = Some f" for k f
    using p that by blast
  show "\<not> crashed s" using assms unfolding main_inv_def by (elim conjE)
  show "unvisited s \<subseteq> dom levelFiles" using assms unfolding main_inv_def by (elim conjE)
  show "main_wg (shared s) = int (card (pending s))"
    using assms unfolding main_inv_def by (elim conjE)
qed

lemma main_invI:
  assumes "\<not> crashed s"
    and "unvisited s \<subseteq> dom levelFiles"
    and "\<And>k f. levelFiles k = Some f \<Longrightarrow> files (shared s) f = fs f"
    and "\<And>k. procs s k = None \<longleftrightarrow> k \<notin> dom levelFiles \<or> k \<in> unvisited s \<or> pc s = Spawning k"
    and "\<And>k. pc s = Spawning k \<Longrightarrow> k \<in> dom levelFiles \<and> k \<notin> unvisited s"
    and "pc s = Waiting \<or> pc s = Returned \<Longrightarrow> unvisited s = {}"
    and "pc s = Returned \<Longrightarrow> main_wg (shared s) = 0"
    and "main_wg (shared s) = int (card (pending s))"
    and "\<And>k f. levelFiles k = Some f \<Longrightarrow> \<exists>past. proc_ok e fs s k f past"
  shows "main_inv e fs s"
  unfolding main_inv_def
  apply (intro conjI allI impI)
  using assms(1) apply assumption
  using assms(2) apply assumption
  using assms(3) apply blast
  using assms(4) apply blast
  using assms(5) apply blast
  using assms(5) apply blast
  using assms(6) apply blast
  using assms(7) apply blast
  using assms(8) apply assumption
  using assms(9) apply blast
  done

lemma proc_ok_frame:
  assumes "proc_ok e fs s k f past"
    and "procs s' k = procs s k"
    and "files (shared s') (sequential_path k) = files (shared s) (sequential_path k)"
    and "files (shared s') (parallel_path k) = files (shared s) (parallel_path k)"
    and "\<And>l. timing_of k l \<Longrightarrow> l \<in> set (stdout (shared s')) \<longleftrightarrow> l \<in> set (stdout (shared s))"
  shows "proc_ok e fs s' k f past"
  using assms unfolding proc_ok_def by simp

lemma proc_ok_same:
  assumes "proc_ok e fs s k f past"
    and "procs s' k = procs s k"
    and "files (shared s') = files (shared s)"
    and "stdout (shared s') = stdout (shared s)"
  shows "proc_ok e fs s' k f past"
  using assms unfolding proc_ok_def by simp

lemma pending_finite: "finite (pending s)"
  using finite_dom_levelFiles by (simp add: pending_def)

lemma pending_same:
  assumes "unvisited s' = unvisited s"
    and "\<And>k. k \<in> dom levelFiles \<Longrightarrow>
           (procs s' k = Some (Script [])) = (procs s k = Some (Script []))"
  shows "pending s' = pending s"
  using assms unfolding pending_def by blast

lemma wg_Add_one: "wg_Add 1 c = Inr n \<Longrightarrow> n = c + 1"
  by (auto simp add: wg_Add_def split: if_splits)

lemma wg_Add_one_Inl: "wg_Add 1 c = Inl f \<Longrightarrow> c < 0"
  by (auto simp add: wg_Add_def split: if_splits)

lemma main_inv_init: "main_inv e fs (main_init fs)"
proof (rule main_invI)
  have p: "pending (main_init fs) = {}" by (auto simp add: pending_def main_init_def)
  show "main_wg (shared (main_init fs)) = int (card (pending (main_init fs)))"
    unfolding p by (simp add: main_init_def initial_world_def)
  show "\<exists>past. proc_ok e fs (main_init fs) k f past" if "levelFiles k = Some f" for k f
  proof -
    have "proc_ok e fs (main_init fs) k f []"
      by (simp add: proc_ok_def main_init_def initial_world_def)
    then show ?thesis by blast
  qed
  show "procs (main_init fs) k = None \<longleftrightarrow>
          k \<notin> dom levelFiles \<or> k \<in> unvisited (main_init fs) \<or> pc (main_init fs) = Spawning k" for k
    by (simp add: main_init_def)
qed (simp_all add: main_init_def initial_world_def)

lemma main_inv_add:
  assumes inv: "main_inv e fs s" and pc: "pc s = Ranging" and lv: "level \<in> unvisited s"
    and n: "wg_Add 1 (main_wg (shared s)) = Inr n"
  shows "main_inv e fs
           (s\<lparr>shared := (shared s)\<lparr>main_wg := n\<rparr>, unvisited := unvisited s - {level},
              pc := Spawning level\<rparr>)"
proof -
  define s' where "s' = s\<lparr>shared := (shared s)\<lparr>main_wg := n\<rparr>,
      unvisited := unvisited s - {level}, pc := Spawning level\<rparr>"
  have f: "main_wg (shared s') = main_wg (shared s) + 1" "files (shared s') = files (shared s)"
    "stdout (shared s') = stdout (shared s)"
    "unvisited s' = unvisited s - {level}" "pc s' = Spawning level" "procs s' = procs s"
    "crashed s' = crashed s"
    using wg_Add_one [OF n] by (simp_all add: s'_def)
  have dom: "level \<in> dom levelFiles" using main_invD(2) [OF inv] lv by blast
  have "main_inv e fs s'"
  proof (rule main_invI)
    show "\<not> crashed s'" using main_invD(1) [OF inv] f by simp
    show "unvisited s' \<subseteq> dom levelFiles" using main_invD(2) [OF inv] f by blast
    show "files (shared s') g = fs g" if "levelFiles k = Some g" for k g
      using main_invD(3) [OF inv that] f by simp
    show "procs s' k = None \<longleftrightarrow> k \<notin> dom levelFiles \<or> k \<in> unvisited s' \<or> pc s' = Spawning k" for k
      using main_invD(4) [OF inv, of k] pc lv unfolding f by auto
    show "k \<in> dom levelFiles \<and> k \<notin> unvisited s'" if "pc s' = Spawning k" for k
      using that dom unfolding f by simp
    show "unvisited s' = {}" if "pc s' = Waiting \<or> pc s' = Returned"
      using that unfolding f by simp
    show "main_wg (shared s') = 0" if "pc s' = Returned"
      using that unfolding f by simp
    have none: "procs s level = None" using main_invD(4) [OF inv, of level] lv by simp
    have p: "pending s' = insert level (pending s)"
      unfolding pending_def f using dom none by auto
    have notin: "level \<notin> pending s" using lv by (simp add: pending_def)
    show "main_wg (shared s') = int (card (pending s'))"
      unfolding p using notin pending_finite [of s] main_invD(8) [OF inv] f(1) by simp
    show "\<exists>past. proc_ok e fs s' k g past" if lf: "levelFiles k = Some g" for k g
    proof -
      obtain past where "proc_ok e fs s k g past" using main_invD(9) [OF inv lf] by blast
      then have "proc_ok e fs s' k g past" by (rule proc_ok_same) (simp_all add: f)
      then show ?thesis by blast
    qed
  qed
  then show ?thesis by (simp only: s'_def)
qed

lemma main_inv_go:
  assumes inv: "main_inv e fs s" and pc: "pc s = Spawning level"
    and lf: "levelFiles level = Some fl"
  shows "main_inv e fs (s\<lparr>pc := Ranging, procs := (procs s)(level \<mapsto> Start fl)\<rparr>)"
proof -
  define s' where "s' = s\<lparr>pc := Ranging, procs := (procs s)(level \<mapsto> Start fl)\<rparr>"
  have f: "shared s' = shared s" "unvisited s' = unvisited s" "pc s' = Ranging"
    "procs s' = (procs s)(level \<mapsto> Start fl)" "crashed s' = crashed s"
    by (simp_all add: s'_def)
  have lv: "level \<in> dom levelFiles" "level \<notin> unvisited s"
    using main_invD(5) [OF inv pc] by simp_all
  have none: "procs s level = None" using main_invD(4) [OF inv, of level] pc by simp
  have "main_inv e fs s'"
  proof (rule main_invI)
    show "\<not> crashed s'" using main_invD(1) [OF inv] f by simp
    show "unvisited s' \<subseteq> dom levelFiles" using main_invD(2) [OF inv] f by simp
    show "files (shared s') g = fs g" if "levelFiles k = Some g" for k g
      using main_invD(3) [OF inv that] f by simp
    show "procs s' k = None \<longleftrightarrow> k \<notin> dom levelFiles \<or> k \<in> unvisited s' \<or> pc s' = Spawning k" for k
      using main_invD(4) [OF inv, of k] pc lv unfolding f by auto
    show "k \<in> dom levelFiles \<and> k \<notin> unvisited s'" if "pc s' = Spawning k" for k
      using that unfolding f by simp
    show "unvisited s' = {}" if "pc s' = Waiting \<or> pc s' = Returned"
      using that unfolding f by simp
    show "main_wg (shared s') = 0" if "pc s' = Returned"
      using that unfolding f by simp
    have p: "pending s' = pending s"
      by (rule pending_same) (simp_all add: f none)
    show "main_wg (shared s') = int (card (pending s'))"
      unfolding p f using main_invD(8) [OF inv] .
    show "\<exists>past. proc_ok e fs s' k g past" if kg: "levelFiles k = Some g" for k g
    proof -
      obtain past where ok: "proc_ok e fs s k g past" using main_invD(9) [OF inv kg] by blast
      show ?thesis
      proof (cases "k = level")
        case True
        then have "g = fl" using kg lf by simp
        then have "proc_ok e fs s' k g past"
          using ok True none unfolding proc_ok_def f by simp
        then show ?thesis by blast
      next
        case False
        have "proc_ok e fs s' k g past"
          using ok by (rule proc_ok_same) (simp_all add: f False)
        then show ?thesis by blast
      qed
    qed
  qed
  then show ?thesis by (simp only: s'_def)
qed

lemma main_inv_range_end:
  assumes inv: "main_inv e fs s" and pc: "pc s = Ranging" and u: "unvisited s = {}"
  shows "main_inv e fs (s\<lparr>pc := Waiting\<rparr>)"
proof -
  define s' where "s' = s\<lparr>pc := Waiting\<rparr>"
  have f: "shared s' = shared s" "unvisited s' = unvisited s" "pc s' = Waiting"
    "procs s' = procs s" "crashed s' = crashed s"
    by (simp_all add: s'_def)
  have "main_inv e fs s'"
  proof (rule main_invI)
    show "\<not> crashed s'" using main_invD(1) [OF inv] f by simp
    show "unvisited s' \<subseteq> dom levelFiles" using main_invD(2) [OF inv] f by simp
    show "files (shared s') g = fs g" if "levelFiles k = Some g" for k g
      using main_invD(3) [OF inv that] f by simp
    show "procs s' k = None \<longleftrightarrow> k \<notin> dom levelFiles \<or> k \<in> unvisited s' \<or> pc s' = Spawning k" for k
      using main_invD(4) [OF inv, of k] pc unfolding f by simp
    show "k \<in> dom levelFiles \<and> k \<notin> unvisited s'" if "pc s' = Spawning k" for k
      using that unfolding f by simp
    show "unvisited s' = {}" if "pc s' = Waiting \<or> pc s' = Returned"
      using u unfolding f by simp
    show "main_wg (shared s') = 0" if "pc s' = Returned"
      using that unfolding f by simp
    have p: "pending s' = pending s"
      by (rule pending_same) (simp_all add: f)
    show "main_wg (shared s') = int (card (pending s'))"
      unfolding p f using main_invD(8) [OF inv] .
    show "\<exists>past. proc_ok e fs s' k g past" if kg: "levelFiles k = Some g" for k g
    proof -
      obtain past where ok: "proc_ok e fs s k g past" using main_invD(9) [OF inv kg] by blast
      have "proc_ok e fs s' k g past"
        using ok by (rule proc_ok_same) (simp_all add: f)
      then show ?thesis by blast
    qed
  qed
  then show ?thesis by (simp only: s'_def)
qed

lemma main_inv_wait:
  assumes inv: "main_inv e fs s" and pc: "pc s = Waiting" and z: "main_wg (shared s) = 0"
  shows "main_inv e fs (s\<lparr>pc := Returned\<rparr>)"
proof -
  define s' where "s' = s\<lparr>pc := Returned\<rparr>"
  have f: "shared s' = shared s" "unvisited s' = unvisited s" "pc s' = Returned"
    "procs s' = procs s" "crashed s' = crashed s"
    by (simp_all add: s'_def)
  have "main_inv e fs s'"
  proof (rule main_invI)
    show "\<not> crashed s'" using main_invD(1) [OF inv] f by simp
    show "unvisited s' \<subseteq> dom levelFiles" using main_invD(2) [OF inv] f by simp
    show "files (shared s') g = fs g" if "levelFiles k = Some g" for k g
      using main_invD(3) [OF inv that] f by simp
    show "procs s' k = None \<longleftrightarrow> k \<notin> dom levelFiles \<or> k \<in> unvisited s' \<or> pc s' = Spawning k" for k
      using main_invD(4) [OF inv, of k] pc unfolding f by simp
    show "k \<in> dom levelFiles \<and> k \<notin> unvisited s'" if "pc s' = Spawning k" for k
      using that unfolding f by simp
    show "unvisited s' = {}" if "pc s' = Waiting \<or> pc s' = Returned"
      using main_invD(6) [OF inv] pc unfolding f by simp
    show "main_wg (shared s') = 0" if "pc s' = Returned"
      using z unfolding f by simp
    have p: "pending s' = pending s"
      by (rule pending_same) (simp_all add: f)
    show "main_wg (shared s') = int (card (pending s'))"
      unfolding p f using main_invD(8) [OF inv] .
    show "\<exists>past. proc_ok e fs s' k g past" if kg: "levelFiles k = Some g" for k g
    proof -
      obtain past where ok: "proc_ok e fs s k g past" using main_invD(9) [OF inv kg] by blast
      have "proc_ok e fs s' k g past"
        using ok by (rule proc_ok_same) (simp_all add: f)
      then show ?thesis by blast
    qed
  qed
  then show ?thesis by (simp only: s'_def)
qed

lemma started_level:
  assumes inv: "main_inv e fs s" and "procs s level = Some p"
  shows "level \<in> dom levelFiles" and "level \<notin> unvisited s" and "pc s \<noteq> Spawning level"
  using main_invD(4) [OF inv, of level] assms(2) by simp_all

lemma main_inv_announce:
  assumes inv: "main_inv e fs s" and pr: "procs s level = Some (Start fl)"
  shows "main_inv e fs
           (s\<lparr>shared := Println (Processing level) (shared s),
              procs := (procs s)(level \<mapsto> Opening fl)\<rparr>)"
proof -
  define s' where "s' = s\<lparr>shared := Println (Processing level) (shared s),
      procs := (procs s)(level \<mapsto> Opening fl)\<rparr>"
  have f: "files (shared s') = files (shared s)" "main_wg (shared s') = main_wg (shared s)"
    "stdout (shared s') = stdout (shared s) @ [Processing level]"
    "unvisited s' = unvisited s" "pc s' = pc s"
    "procs s' = (procs s)(level \<mapsto> Opening fl)" "crashed s' = crashed s"
    by (simp_all add: s'_def Println_def)
  note lv = started_level [OF inv pr]
  have "main_inv e fs s'"
  proof (rule main_invI)
    show "\<not> crashed s'" using main_invD(1) [OF inv] f by simp
    show "unvisited s' \<subseteq> dom levelFiles" using main_invD(2) [OF inv] f by simp
    show "files (shared s') g = fs g" if "levelFiles k = Some g" for k g
      using main_invD(3) [OF inv that] f by simp
    show "procs s' k = None \<longleftrightarrow> k \<notin> dom levelFiles \<or> k \<in> unvisited s' \<or> pc s' = Spawning k" for k
      using main_invD(4) [OF inv, of k] lv unfolding f by auto
    show "k \<in> dom levelFiles \<and> k \<notin> unvisited s'" if "pc s' = Spawning k" for k
      using main_invD(5) [OF inv, of k] that unfolding f by simp
    show "unvisited s' = {}" if "pc s' = Waiting \<or> pc s' = Returned"
      using main_invD(6) [OF inv] that unfolding f by simp
    show "main_wg (shared s') = 0" if "pc s' = Returned"
      using main_invD(7) [OF inv] that unfolding f by simp
    have p: "pending s' = pending s"
      by (rule pending_same) (simp_all add: f pr)
    show "main_wg (shared s') = int (card (pending s'))"
      unfolding p f using main_invD(8) [OF inv] .
    show "\<exists>past. proc_ok e fs s' k g past" if kg: "levelFiles k = Some g" for k g
    proof -
      obtain past where ok: "proc_ok e fs s k g past" using main_invD(9) [OF inv kg] by blast
      have t: "l \<in> set (stdout (shared s')) \<longleftrightarrow> l \<in> set (stdout (shared s))"
        if "timing_of k l" for l
        using that unfolding f by (auto simp add: timing_of_def)
      show ?thesis
      proof (cases "k = level")
        case True
        have "proc_ok e fs s' k g past"
          using ok True pr t unfolding proc_ok_def f(1,6) by simp
        then show ?thesis by blast
      next
        case False
        have "proc_ok e fs s' k g past"
          using ok by (rule proc_ok_frame) (simp_all add: f(1,6) False t)
        then show ?thesis by blast
      qed
    qed
  qed
  then show ?thesis by (simp only: s'_def)
qed

lemma main_inv_open_file:
  assumes inv: "main_inv e fs s" and pr: "procs s level = Some (Opening fl)"
  shows "main_inv e fs
           (s\<lparr>procs := (procs s)(level \<mapsto> Script (processImage e level (os_Open e (shared s) fl)))\<rparr>)"
proof -
  define s' where "s' = s\<lparr>procs :=
      (procs s)(level \<mapsto> Script (processImage e level (os_Open e (shared s) fl)))\<rparr>"
  have f: "shared s' = shared s" "unvisited s' = unvisited s" "pc s' = pc s"
    "procs s' = (procs s)(level \<mapsto> Script (processImage e level (os_Open e (shared s) fl)))"
    "crashed s' = crashed s"
    by (simp_all add: s'_def)
  note lv = started_level [OF inv pr]
  have "main_inv e fs s'"
  proof (rule main_invI)
    show "\<not> crashed s'" using main_invD(1) [OF inv] f by simp
    show "unvisited s' \<subseteq> dom levelFiles" using main_invD(2) [OF inv] f by simp
    show "files (shared s') g = fs g" if "levelFiles k = Some g" for k g
      using main_invD(3) [OF inv that] f by simp
    show "procs s' k = None \<longleftrightarrow> k \<notin> dom levelFiles \<or> k \<in> unvisited s' \<or> pc s' = Spawning k" for k
      using main_invD(4) [OF inv, of k] lv unfolding f by auto
    show "k \<in> dom levelFiles \<and> k \<notin> unvisited s'" if "pc s' = Spawning k" for k
      using main_invD(5) [OF inv, of k] that unfolding f by simp
    show "unvisited s' = {}" if "pc s' = Waiting \<or> pc s' = Returned"
      using main_invD(6) [OF inv] that unfolding f by simp
    show "main_wg (shared s') = 0" if "pc s' = Returned"
      using main_invD(7) [OF inv] that unfolding f by simp
    have p: "pending s' = pending s"
      by (rule pending_same) (simp_all add: f pr processImage_not_Nil)
    show "main_wg (shared s') = int (card (pending s'))"
      unfolding p f using main_invD(8) [OF inv] .
    show "\<exists>past. proc_ok e fs s' k g past" if kg: "levelFiles k = Some g" for k g
    proof -
      obtain past where ok: "proc_ok e fs s k g past" using main_invD(9) [OF inv kg] by blast
      show ?thesis
      proof (cases "k = level")
        case True
        have g: "fl = g" "past = []" using ok True pr unfolding proc_ok_def by simp_all
        have "os_Open e (shared s) g = os_Open e (initial_world fs) g"
          using main_invD(3) [OF inv kg] by (simp add: os_Open_def initial_world_def)
        then have "proc_ok e fs s' k g past"
          using ok True g unfolding proc_ok_def f outcome_def by simp
        then show ?thesis by blast
      next
        case False
        have "proc_ok e fs s' k g past"
          using ok by (rule proc_ok_same) (simp_all add: f False)
        then show ?thesis by blast
      qed
    qed
  qed
  then show ?thesis by (simp only: s'_def)
qed

lemma running_pending:
  assumes inv: "main_inv e fs s" and pr: "procs s level = Some (Script (a # rest))"
  shows "level \<in> pending s" and "1 \<le> main_wg (shared s)"
proof -
  note lv = started_level [OF inv pr]
  show m: "level \<in> pending s" using lv pr by (simp add: pending_def)
  have "0 < card (pending s)" using m pending_finite [of s] by (auto simp add: card_gt_0_iff)
  then show "1 \<le> main_wg (shared s)" using main_invD(8) [OF inv] by simp
qed

lemma running_next:
  assumes inv: "main_inv e fs s" and pr: "procs s level = Some (Script (a # rest))"
  shows "(rest = [] \<and> a = Done_wg) \<or> (rest \<noteq> [] \<and> own_action level a)"
proof -
  have "level \<in> dom levelFiles" using started_level(1) [OF inv pr] .
  then obtain fl where lf: "levelFiles level = Some fl" by blast
  obtain past where ok: "proc_ok e fs s level fl past" using main_invD(9) [OF inv lf] by blast
  have "past @ a # rest = processImage e level (os_Open e (initial_world fs) fl)"
    using ok pr unfolding proc_ok_def outcome_def by simp
  then show ?thesis by (rule processImage_next)
qed

lemma main_inv_act:
  assumes inv: "main_inv e fs s" and pr: "procs s level = Some (Script (a # rest))"
    and pf: "perform a (shared s) = Inr w"
  shows "main_inv e fs (s\<lparr>shared := w, procs := (procs s)(level \<mapsto> Script rest)\<rparr>)"
proof -
  define s' where "s' = s\<lparr>shared := w, procs := (procs s)(level \<mapsto> Script rest)\<rparr>"
  have f: "shared s' = w" "unvisited s' = unvisited s" "pc s' = pc s"
    "procs s' = (procs s)(level \<mapsto> Script rest)" "crashed s' = crashed s"
    by (simp_all add: s'_def)
  note lv = started_level [OF inv pr]
  note nx = running_next [OF inv pr]
  note pd = running_pending [OF inv pr]
  have fw: "files w = files_after [a] (files (shared s))" using pf by (rule perform_files)
  have sw: "l \<in> set (stdout w) \<longleftrightarrow> l \<in> set (stdout (shared s)) \<or> a = Print l" for l
    using pf by (rule perform_stdout)
  have unchanged: "files w p = files (shared s) p"
    if "p \<noteq> sequential_path level" "p \<noteq> parallel_path level" for p
  proof (cases "a = Done_wg")
    case True
    then show ?thesis unfolding fw by simp
  next
    case False
    then have "own_action level a" using nx by blast
    then show ?thesis unfolding fw using that by (rule own_action_files)
  qed
  have "main_inv e fs s'"
  proof (rule main_invI)
    show "\<not> crashed s'" using main_invD(1) [OF inv] f by simp
    show "unvisited s' \<subseteq> dom levelFiles" using main_invD(2) [OF inv] f by simp
    show "files (shared s') g = fs g" if kg: "levelFiles k = Some g" for k g
    proof -
      have "files w g = files (shared s) g"
        using input_not_own [OF kg, of level] by (intro unchanged) simp_all
      then show ?thesis using main_invD(3) [OF inv kg] f by simp
    qed
    show "procs s' k = None \<longleftrightarrow> k \<notin> dom levelFiles \<or> k \<in> unvisited s' \<or> pc s' = Spawning k" for k
      using main_invD(4) [OF inv, of k] lv unfolding f by auto
    show "k \<in> dom levelFiles \<and> k \<notin> unvisited s'" if "pc s' = Spawning k" for k
      using main_invD(5) [OF inv, of k] that unfolding f by simp
    show "unvisited s' = {}" if "pc s' = Waiting \<or> pc s' = Returned"
      using main_invD(6) [OF inv] that unfolding f by simp
    show "main_wg (shared s') = 0" if "pc s' = Returned"
    proof -
      have "main_wg (shared s) = 0" using main_invD(7) [OF inv] that unfolding f by simp
      then show ?thesis using pd(2) by simp
    qed
    show "main_wg (shared s') = int (card (pending s'))"
    proof (cases "a = Done_wg")
      case True
      then have r: "rest = []" using nx by auto
      have w: "main_wg w = main_wg (shared s) - 1" using pf True by (simp add: perform_Done del: perform.simps)
      have p: "pending s' = pending s - {level}"
        unfolding pending_def f r using lv by auto
      have "card (pending s') = card (pending s) - 1"
        unfolding p using pd(1) pending_finite [of s] by simp
      moreover have "1 \<le> card (pending s)" using pd(2) main_invD(8) [OF inv] by simp
      ultimately show ?thesis using w main_invD(8) [OF inv] unfolding f by simp
    next
      case False
      then have r: "rest \<noteq> []" and own: "own_action level a" using nx by auto
      have w: "main_wg w = main_wg (shared s)" using own pf by (rule own_action_counter)
      have p: "pending s' = pending s"
        by (rule pending_same) (simp_all add: f pr r)
      show ?thesis unfolding p f w using main_invD(8) [OF inv] .
    qed
    show "\<exists>past. proc_ok e fs s' k g past" if kg: "levelFiles k = Some g" for k g
    proof -
      obtain past where ok: "proc_ok e fs s k g past" using main_invD(9) [OF inv kg] by blast
      show ?thesis
      proof (cases "k = level")
        case True
        have pg: "past @ a # rest = outcome e fs level g"
          using ok pr True unfolding proc_ok_def by simp
        have f1: "files (shared s) (sequential_path level) = files_after past fs (sequential_path level)"
          and f2: "files (shared s) (parallel_path level) = files_after past fs (parallel_path level)"
          and tm: "\<And>l. timing_of level l \<Longrightarrow> l \<in> set (stdout (shared s)) \<longleftrightarrow> Print l \<in> set past"
          using ok True unfolding proc_ok_def by simp_all
        have "proc_ok e fs s' level g (past @ [a])"
          unfolding proc_ok_def f fw
        proof (intro conjI allI impI)
          show "proc_progress (((procs s)(level \<mapsto> Script rest)) level) g (outcome e fs level g)
                  (past @ [a])"
            using pg by simp
          show "files_after [a] (files (shared s)) (sequential_path level) =
                  files_after (past @ [a]) fs (sequential_path level)"
            using f1 by (rule files_after_snoc)
          show "files_after [a] (files (shared s)) (parallel_path level) =
                  files_after (past @ [a]) fs (parallel_path level)"
            using f2 by (rule files_after_snoc)
          show "l \<in> set (stdout w) \<longleftrightarrow> Print l \<in> set (past @ [a])" if "timing_of level l" for l
            using sw [of l] tm [OF that] by auto
        qed
        then show ?thesis using True by blast
      next
        case False
        have "proc_ok e fs s' k g past"
          using ok
        proof (rule proc_ok_frame)
          show "procs s' k = procs s k" using False by (simp add: f)
          show "files (shared s') (sequential_path k) = files (shared s) (sequential_path k)"
            unfolding f using own_paths_disjoint [of k level "sequential_path k"] False
            by (intro unchanged) simp_all
          show "files (shared s') (parallel_path k) = files (shared s) (parallel_path k)"
            unfolding f using own_paths_disjoint [of k level "parallel_path k"] False
            by (intro unchanged) simp_all
          show "l \<in> set (stdout (shared s')) \<longleftrightarrow> l \<in> set (stdout (shared s))"
            if t: "timing_of k l" for l
          proof -
            have "a \<noteq> Print l"
            proof
              assume al: "a = Print l"
              then have "own_action level (Print l)" using nx by auto
              then have "k = level" using t by (rule own_action_timing)
              then show False using False by simp
            qed
            then show ?thesis unfolding f using sw [of l] by simp
          qed
        qed
        then show ?thesis by blast
      qed
    qed
  qed
  then show ?thesis by (simp only: s'_def)
qed

lemma act_returns:
  assumes inv: "main_inv e fs s" and pr: "procs s level = Some (Script (a # rest))"
  shows "\<exists>w. perform a (shared s) = Inr w"
proof (cases "a = Done_wg")
  case True
  then show ?thesis using running_pending(2) [OF inv pr]
    by (simp add: perform_Done del: perform.simps)
next
  case False
  then have "own_action level a" using running_next [OF inv pr] by blast
  then show ?thesis by (rule own_action_returns)
qed

lemma add_returns:
  assumes inv: "main_inv e fs s"
  shows "wg_Add 1 (main_wg (shared s)) = Inr (main_wg (shared s) + 1)"
  using main_invD(8) [OF inv] by (simp add: wg_Add_def)

lemma main_inv_step:
  assumes "main_step e s s'" and inv: "main_inv e fs s"
  shows "main_inv e fs s'"
  using assms(1)
proof cases
  case (add level n)
  then show ?thesis using main_inv_add [OF inv] by simp
next
  case (add_panic level f)
  then show ?thesis using add_returns [OF inv] by simp
next
  case (go level fl)
  then show ?thesis using main_inv_go [OF inv] by simp
next
  case range_end
  then show ?thesis using main_inv_range_end [OF inv] by simp
next
  case wait
  then show ?thesis using main_inv_wait [OF inv] by simp
next
  case (announce level fl)
  then show ?thesis using main_inv_announce [OF inv] by simp
next
  case (open_file level fl)
  then show ?thesis using main_inv_open_file [OF inv] by simp
next
  case (act level a rest w)
  then show ?thesis using main_inv_act [OF inv] by simp
next
  case (act_panic level a rest f)
  then show ?thesis using act_returns [OF inv act_panic(2)] by simp
qed

lemma main_run_inv: "main_run e s s' \<Longrightarrow> main_inv e fs s \<Longrightarrow> main_inv e fs s'"
proof (induction rule: main_run.induct)
  case stay
  then show ?case .
next
  case (further s' s'')
  show ?case using further(3) further(4) [OF further(5)] by (rule main_inv_step)
qed

lemma main_reachable_inv: "main_reachable e fs s \<Longrightarrow> main_inv e fs s"
  unfolding main_reachable_def using main_run_inv [OF _ main_inv_init] by blast

lemma main_run_trans: "main_run e s' s'' \<Longrightarrow> main_run e s s' \<Longrightarrow> main_run e s s''"
proof (induction rule: main_run.induct)
  case stay
  then show ?case .
next
  case (further t t')
  show ?case using further(4) [OF further(5)] further(2) further(3) by (rule main_run.further)
qed

lemma main_reachable_run: "main_reachable e fs s \<Longrightarrow> main_run e s s' \<Longrightarrow> main_reachable e fs s'"
  unfolding main_reachable_def using main_run_trans by blast

subsection \<open>What a goroutine leaves behind\<close>

lemma outcome_failing:
  "failure_report e fs fl = Some l \<Longrightarrow> outcome e fs level fl = [Print l, Done_wg]"
  by (auto simp add: failure_report_def outcome_def processImage_def os_Open_def
      initial_world_def split: option.splits sum.splits)

lemma failure_report_not_timing: "failure_report e fs fl = Some l \<Longrightarrow> \<not> timing_of level l"
  by (auto simp add: failure_report_def timing_of_def split: option.splits sum.splits)

lemma outcome_succeeding:
  assumes "fs fl = Some bytes" and "Decode e bytes = Inr src"
  shows "\<exists>img. generateMandelbrotParallel (copyImage (NewRGBA (Bounds src)) src) src = Inr img \<and>
     outcome e fs level fl =
       [Allocate, Allocate]
       @ saveImage e (generateMandelbrotSequential (copyImage (NewRGBA (Bounds src)) src) src)
           (sequential_path level)
       @ [Print (SequentialElapsed level (sequential_time e level))]
       @ saveImage e img (parallel_path level)
       @ [Print (ParallelElapsed level (parallel_time e level)), Done_wg]"
  using assms
  by (simp add: outcome_def processImage_def os_Open_def initial_world_def Let_def par_returns
      sequential_path_def parallel_path_def)

lemma files_after_saveImage:
  "files_after (saveImage e img p) m q =
     (if q = p then (case create_error e p of None \<Rightarrow> Some (fst (Encode e img)) | Some err \<Rightarrow> m p)
      else m q)"
  by (auto simp add: saveImage_def split: option.splits prod.splits)

lemma split_two:
  assumes "past @ rest = [x, y]"
  shows "(past = [] \<and> rest = [x, y]) \<or> (past = [x] \<and> rest = [y]) \<or> (past = [x, y] \<and> rest = [])"
proof (cases past)
  case Nil
  then show ?thesis using assms by simp
next
  case (Cons a as)
  then show ?thesis using assms by (cases as) auto
qed

lemma not_started_past:
  assumes "proc_ok e fs s level fl past" and "\<And>rest. procs s level \<noteq> Some (Script rest)"
  shows "past = []"
proof (cases "procs s level")
  case None
  then show ?thesis using assms(1) unfolding proc_ok_def by simp
next
  case (Some p)
  then show ?thesis using assms unfolding proc_ok_def by (cases p) simp_all
qed

lemma failing_state:
  assumes inv: "main_inv e fs s" and lf: "levelFiles level = Some fl"
    and fr: "failure_report e fs fl = Some l"
  shows "(\<forall>rest. procs s level = Some (Script rest) \<longrightarrow>
            rest = [Print l, Done_wg] \<or> rest = [Done_wg] \<or> rest = [])
         \<and> files (shared s) (sequential_path level) = fs (sequential_path level)
         \<and> files (shared s) (parallel_path level) = fs (parallel_path level)
         \<and> (\<forall>t. timing_of level t \<longrightarrow> t \<notin> set (stdout (shared s)))"
proof -
  obtain past where ok: "proc_ok e fs s level fl past" using main_invD(9) [OF inv lf] by blast
  have out: "outcome e fs level fl = [Print l, Done_wg]" using fr by (rule outcome_failing)
  have f1: "files (shared s) (sequential_path level) = files_after past fs (sequential_path level)"
    and f2: "files (shared s) (parallel_path level) = files_after past fs (parallel_path level)"
    and tm: "\<And>t. timing_of level t \<Longrightarrow> t \<in> set (stdout (shared s)) \<longleftrightarrow> Print t \<in> set past"
    using ok unfolding proc_ok_def by simp_all
  have nt: "\<not> timing_of level l" using fr by (rule failure_report_not_timing)
  have past: "past = [] \<or> past = [Print l] \<or> past = [Print l, Done_wg]"
  proof (cases "\<exists>rest. procs s level = Some (Script rest)")
    case True
    then obtain rest where r: "procs s level = Some (Script rest)" by blast
    have "past @ rest = [Print l, Done_wg]" using ok r out unfolding proc_ok_def by simp
    then have "(past = [] \<and> rest = [Print l, Done_wg]) \<or> (past = [Print l] \<and> rest = [Done_wg])
        \<or> (past = [Print l, Done_wg] \<and> rest = [])" by (rule split_two)
    then show ?thesis by blast
  next
    case False
    then have "past = []" using not_started_past [OF ok] by blast
    then show ?thesis by simp
  qed
  have a: "rest = [Print l, Done_wg] \<or> rest = [Done_wg] \<or> rest = []"
    if r: "procs s level = Some (Script rest)" for rest
  proof -
    have "past @ rest = [Print l, Done_wg]" using ok r out unfolding proc_ok_def by simp
    then have "(past = [] \<and> rest = [Print l, Done_wg]) \<or> (past = [Print l] \<and> rest = [Done_wg])
        \<or> (past = [Print l, Done_wg] \<and> rest = [])" by (rule split_two)
    then show ?thesis by blast
  qed
  have b: "files_after past fs p = fs p" for p using past by auto
  have c: "t \<notin> set (stdout (shared s))" if t: "timing_of level t" for t
  proof -
    have "t \<noteq> l" using t nt by blast
    then have "Print t \<notin> set past" using past by auto
    then show ?thesis using tm [OF t] by simp
  qed
  show ?thesis using a b c f1 f2 by simp
qed

lemma finished_state:
  assumes inv: "main_inv e fs s" and lf: "levelFiles level = Some fl"
    and op: "fs fl = Some bytes" and dec: "Decode e bytes = Inr src"
    and fin: "procs s level = Some (Script [])"
  shows "\<exists>img. generateMandelbrotParallel (copyImage (NewRGBA (Bounds src)) src) src = Inr img
         \<and> files (shared s) (sequential_path level) =
             (case create_error e (sequential_path level) of
                None \<Rightarrow> Some (fst (Encode e
                  (generateMandelbrotSequential (copyImage (NewRGBA (Bounds src)) src) src)))
              | Some err \<Rightarrow> fs (sequential_path level))
         \<and> files (shared s) (parallel_path level) =
             (case create_error e (parallel_path level) of
                None \<Rightarrow> Some (fst (Encode e img))
              | Some err \<Rightarrow> fs (parallel_path level))
         \<and> SequentialElapsed level (sequential_time e level) \<in> set (stdout (shared s))
         \<and> ParallelElapsed level (parallel_time e level) \<in> set (stdout (shared s))"
proof -
  obtain past where ok: "proc_ok e fs s level fl past" using main_invD(9) [OF inv lf] by blast
  obtain img where img: "generateMandelbrotParallel (copyImage (NewRGBA (Bounds src)) src) src = Inr img"
    and out: "outcome e fs level fl =
       [Allocate, Allocate]
       @ saveImage e (generateMandelbrotSequential (copyImage (NewRGBA (Bounds src)) src) src)
           (sequential_path level)
       @ [Print (SequentialElapsed level (sequential_time e level))]
       @ saveImage e img (parallel_path level)
       @ [Print (ParallelElapsed level (parallel_time e level)), Done_wg]"
    using outcome_succeeding [of fs fl bytes e src level] op dec by blast
  have past: "past = outcome e fs level fl" using ok fin unfolding proc_ok_def by simp
  have f1: "files (shared s) (sequential_path level) = files_after past fs (sequential_path level)"
    and f2: "files (shared s) (parallel_path level) = files_after past fs (parallel_path level)"
    and tm: "\<And>t. timing_of level t \<Longrightarrow> t \<in> set (stdout (shared s)) \<longleftrightarrow> Print t \<in> set past"
    using ok unfolding proc_ok_def by simp_all
  have ne: "sequential_path level \<noteq> parallel_path level" by (rule sequential_not_parallel)
  have g1: "files_after past fs (sequential_path level) =
             (case create_error e (sequential_path level) of
                None \<Rightarrow> Some (fst (Encode e
                  (generateMandelbrotSequential (copyImage (NewRGBA (Bounds src)) src) src)))
              | Some err \<Rightarrow> fs (sequential_path level))"
    unfolding past out using ne ne [symmetric]
    by (simp add: files_after_append files_after_saveImage split: option.splits)
  have g2: "files_after past fs (parallel_path level) =
             (case create_error e (parallel_path level) of
                None \<Rightarrow> Some (fst (Encode e img))
              | Some err \<Rightarrow> fs (parallel_path level))"
    unfolding past out using ne ne [symmetric]
    by (simp add: files_after_append files_after_saveImage split: option.splits)
  have t1: "SequentialElapsed level (sequential_time e level) \<in> set (stdout (shared s))"
    using tm [of "SequentialElapsed level (sequential_time e level)"]
    unfolding past out by (simp add: timing_of_def)
  have t2: "ParallelElapsed level (parallel_time e level) \<in> set (stdout (shared s))"
    using tm [of "ParallelElapsed level (parallel_time e level)"]
    unfolding past out by (simp add: timing_of_def)
  show ?thesis using img f1 f2 g1 g2 t1 t2 by simp
qed

lemma returned_finished:
  assumes inv: "main_inv e fs s" and pc: "pc s = Returned" and lf: "levelFiles level = Some fl"
  shows "procs s level = Some (Script [])"
proof -
  have "card (pending s) = 0" using main_invD(7) [OF inv pc] main_invD(8) [OF inv] by simp
  then have "pending s = {}" using pending_finite [of s] by simp
  moreover have "unvisited s = {}" using main_invD(6) [OF inv] pc by simp
  ultimately show ?thesis using lf unfolding pending_def by blast
qed

subsection \<open>Every run of \<^verbatim>\<open>main\<close> ends\<close>

lemma main_progress:
  assumes inv: "main_inv e fs s" and nr: "pc s \<noteq> Returned"
  shows "\<exists>s'. main_step e s s'"
proof (cases "pc s")
  case Ranging
  show ?thesis
  proof (cases "unvisited s = {}")
    case True
    show ?thesis using main_step.range_end [OF Ranging True] by blast
  next
    case False
    then obtain level where "level \<in> unvisited s" by blast
    then show ?thesis using main_step.add [OF Ranging _ add_returns [OF inv]] by blast
  qed
next
  case (Spawning level)
  then have "level \<in> dom levelFiles" using main_invD(5) [OF inv] by blast
  then obtain fl where "levelFiles level = Some fl" by blast
  then show ?thesis using main_step.go [OF Spawning] by blast
next
  case Waiting
  show ?thesis
  proof (cases "main_wg (shared s) = 0")
    case True
    show ?thesis using main_step.wait [OF Waiting True] by blast
  next
    case False
    then have "card (pending s) \<noteq> 0" using main_invD(8) [OF inv] by simp
    then have "pending s \<noteq> {}" by auto
    then obtain k where k: "k \<in> pending s" by blast
    then have kd: "k \<in> dom levelFiles" "k \<notin> unvisited s" "procs s k \<noteq> Some (Script [])"
      by (simp_all add: pending_def)
    have "procs s k \<noteq> None" using main_invD(4) [OF inv, of k] kd Waiting by simp
    then obtain p where p: "procs s k = Some p" by blast
    show ?thesis
    proof (cases p)
      case (Start fl)
      then show ?thesis using main_step.announce [of s k fl e] p by blast
    next
      case (Opening fl)
      then show ?thesis using main_step.open_file [of s k fl e] p by blast
    next
      case (Script as)
      then have "as \<noteq> []" using kd p by simp
      then obtain a rest where as: "as = a # rest" by (cases as) simp_all
      have pr: "procs s k = Some (Script (a # rest))" using p Script as by simp
      obtain w where "perform a (shared s) = Inr w" using act_returns [OF inv pr] by blast
      then show ?thesis using main_step.act [OF pr] by blast
    qed
  qed
next
  case Returned
  then show ?thesis using nr by simp
qed

lemma work_pc:
  assumes "procs s' = procs s" and "pc_work (pc s') < pc_work (pc s)"
  shows "work e fs s' < work e fs s"
  using assms by (simp add: work_def)

lemma work_proc:
  assumes lv: "level \<in> dom levelFiles" and pr: "procs s' = (procs s)(level \<mapsto> p)"
    and less: "pc_work (pc s') + proc_work (length (outcome e fs level (the (levelFiles level)))) (Some p)
             < pc_work (pc s) + proc_work (length (outcome e fs level (the (levelFiles level)))) (procs s level)"
  shows "work e fs s' < work e fs s"
proof -
  define g where "g = (\<lambda>(t :: main_state) k. proc_work (length (outcome e fs k (the (levelFiles k)))) (procs t k))"
  have r: "sum (g t) (dom levelFiles) = g t level + sum (g t) (dom levelFiles - {level})" for t
    using finite_dom_levelFiles lv by (rule sum.remove)
  have "sum (g s') (dom levelFiles - {level}) = sum (g s) (dom levelFiles - {level})"
    by (rule sum.cong) (simp_all add: g_def pr)
  moreover have "g s' level = proc_work (length (outcome e fs level (the (levelFiles level)))) (Some p)"
    by (simp add: g_def pr)
  moreover have "g s level = proc_work (length (outcome e fs level (the (levelFiles level)))) (procs s level)"
    by (simp add: g_def)
  moreover have "work e fs t = pc_work (pc t) + sum (g t) (dom levelFiles)" for t
    by (simp add: work_def g_def)
  ultimately show ?thesis using less r [of s] r [of s'] by simp
qed

lemma work_decreases:
  assumes st: "main_step e s s'" and inv: "main_inv e fs s"
  shows "work e fs s' < work e fs s"
  using st
proof cases
  case (add level n)
  then show ?thesis by (intro work_pc) simp_all
next
  case (add_panic level f)
  then show ?thesis using add_returns [OF inv] by simp
next
  case (go level fl)
  have "level \<in> dom levelFiles" using go(3) by blast
  moreover have "procs s level = None" using main_invD(4) [OF inv, of level] go(2) by simp
  ultimately show ?thesis using go by (intro work_proc [of level _ _ "Start fl"]) simp_all
next
  case range_end
  then show ?thesis by (intro work_pc) simp_all
next
  case wait
  then show ?thesis by (intro work_pc) simp_all
next
  case (announce level fl)
  have "level \<in> dom levelFiles" using started_level(1) [OF inv announce(2)] .
  then show ?thesis using announce by (intro work_proc [of level _ _ "Opening fl"]) simp_all
next
  case (open_file level fl)
  have lv: "level \<in> dom levelFiles" using started_level(1) [OF inv open_file(2)] .
  then obtain g where lf: "levelFiles level = Some g" by blast
  obtain past where ok: "proc_ok e fs s level g past" using main_invD(9) [OF inv lf] by blast
  have g: "fl = g" using ok open_file(2) unfolding proc_ok_def by simp
  have "os_Open e (shared s) g = os_Open e (initial_world fs) g"
    using main_invD(3) [OF inv lf] by (simp add: os_Open_def initial_world_def)
  then have "processImage e level (os_Open e (shared s) fl) = outcome e fs level (the (levelFiles level))"
    using g lf by (simp add: outcome_def)
  then show ?thesis using open_file lv
    by (intro work_proc [of level _ _ "Script (processImage e level (os_Open e (shared s) fl))"])
      simp_all
next
  case (act level a rest w)
  have "level \<in> dom levelFiles" using started_level(1) [OF inv act(2)] .
  then show ?thesis using act by (intro work_proc [of level _ _ "Script rest"]) simp_all
next
  case (act_panic level a rest f)
  then show ?thesis using act_returns [OF inv act_panic(2)] by simp
qed

lemma main_completes: "main_inv e fs s \<Longrightarrow> \<exists>s'. main_run e s s' \<and> pc s' = Returned"
proof (induction "work e fs s" arbitrary: s rule: less_induct)
  case less
  show ?case
  proof (cases "pc s = Returned")
    case True
    then show ?thesis using main_run.stay by blast
  next
    case False
    obtain t where st: "main_step e s t" using main_progress [OF less.prems False] by blast
    have it: "main_inv e fs t" using st less.prems by (rule main_inv_step)
    have "work e fs t < work e fs s" using st less.prems by (rule work_decreases)
    then obtain s' where s': "main_run e t s'" "pc s' = Returned"
      using less.hyps [OF _ it] by blast
    have "main_run e s t"
      using main_run.stay main_invD(1) [OF less.prems] st by (rule main_run.further)
    then have "main_run e s s'" using s'(1) main_run_trans by blast
    then show ?thesis using s'(2) by blast
  qed
qed

lemma perform_rasters: "perform a w = Inr w' \<Longrightarrow> a \<noteq> Allocate \<Longrightarrow> rasters w' = rasters w"
  by (cases a) (auto simp add: Println_def split: sum.splits)

lemma step_rasters:
  assumes st: "main_step e s s'" and inv: "main_inv e fs s"
    and fail: "\<And>level fl. levelFiles level = Some fl \<Longrightarrow> failure_report e fs fl \<noteq> None"
  shows "rasters (shared s') = rasters (shared s)"
  using st
proof cases
  case (act level a rest w)
  have "level \<in> dom levelFiles" using started_level(1) [OF inv act(2)] .
  then obtain fl where lf: "levelFiles level = Some fl" by blast
  obtain l where l: "failure_report e fs fl = Some l" using fail [OF lf] by blast
  have "a # rest = [Print l, Done_wg] \<or> a # rest = [Done_wg] \<or> a # rest = []"
    using failing_state [OF inv lf l] act(2) by blast
  then have "a \<noteq> Allocate" by auto
  then show ?thesis using perform_rasters [OF act(3)] act(1) by simp
qed (simp_all add: Println_def)

lemma run_rasters:
  assumes "main_run e s s'" and "main_inv e fs s"
    and fail: "\<And>level fl. levelFiles level = Some fl \<Longrightarrow> failure_report e fs fl \<noteq> None"
  shows "rasters (shared s') = rasters (shared s)"
  using assms(1)
proof (induction rule: main_run.induct)
  case stay
  show ?case by simp
next
  case (further t t')
  have "main_inv e fs t" using further(1) assms(2) by (rule main_run_inv)
  then have "rasters (shared t') = rasters (shared t)" using further(3) fail step_rasters by blast
  then show ?case using further(4) by simp
qed

lemma no_raster:
  assumes "main_reachable e fs s"
    and fail: "\<And>level fl. levelFiles level = Some fl \<Longrightarrow> failure_report e fs fl \<noteq> None"
  shows "rasters (shared s) = 0"
proof -
  have "rasters (shared s) = rasters (shared (main_init fs))"
    using assms(1) main_inv_init fail unfolding main_reachable_def by (rule run_rasters)
  then show ?thesis by (simp add: main_init_def initial_world_def)
qed

subsection \<open>The sample run\<close>

lemma wide_sequential_bytes:
  "fst (Encode sample_env
     (generateMandelbrotSequential (copyImage (NewRGBA (Bounds wide_source)) wide_source) wide_source))
   = [128, 0, 0, 255, 128, 0, 0, 255]"
proof -
  have rect: "Rect (NewRGBA (Bounds wide_source)) = rectangle 0 0 801 1"
    by (simp add: NewRGBA_def wide_source_def)
  have inb: "Point_In \<lparr>X = 0, Y = 0\<rparr> (rectangle 0 0 801 1)"
    "Point_In \<lparr>X = 800, Y = 0\<rparr> (rectangle 0 0 801 1)"
    by (simp_all add: Point_In_def rectangle_def)
  have at: "At wide_source 0 0 = NRGBA 255 0 0 128" "At wide_source 800 0 = NRGBA 255 0 0 128"
    using inb by (simp_all add: wide_source_def)
  have req: "requantize (NRGBA 255 0 0 128) = (128, 0, 0, 255)"
    by (simp add: requantize_def uint8_shr8_def premultiply_def widen8_def)
  show ?thesis
    using inb by (simp add: sample_env_def bytes_at_def Pix_seq rect at req)
qed

lemma wide_parallel_bytes:
  assumes "generateMandelbrotParallel (copyImage (NewRGBA (Bounds wide_source)) wide_source) wide_source
           = Inr img"
  shows "fst (Encode sample_env img) = [128, 0, 0, 255, 128, 0, 0, 128]"
proof -
  let ?img = "copyImage (NewRGBA (Bounds wide_source)) wide_source"
  have rect: "Rect (NewRGBA (Bounds wide_source)) = rectangle 0 0 801 1"
    by (simp add: NewRGBA_def wide_source_def)
  have inb: "Point_In \<lparr>X = 0, Y = 0\<rparr> (rectangle 0 0 801 1)"
    "Point_In \<lparr>X = 800, Y = 0\<rparr> (rectangle 0 0 801 1)"
    by (simp_all add: Point_In_def rectangle_def)
  have at: "At wide_source 0 0 = NRGBA 255 0 0 128" "At wide_source 800 0 = NRGBA 255 0 0 128"
    using inb by (simp_all add: wide_source_def)
  have req: "requantize (NRGBA 255 0 0 128) = (128, 0, 0, 255)"
    by (simp add: requantize_def uint8_shr8_def premultiply_def widen8_def)
  have copied: "Pix ?img (800, 0) = (128, 0, 0, 128)"
    using inb by (simp add: Pix_copy rect at)
       (simp add: uint8_shr8_def premultiply_def widen8_def)
  obtain img' where res: "generateMandelbrotParallel ?img wide_source = Inr img'"
    and p: "\<And>a b. Pix img' (a, b) =
        (if in_window a b \<and> Point_In \<lparr>X = a, Y = b\<rparr> (Rect ?img)
         then requantize (At wide_source a b) else Pix ?img (a, b))"
    using par_result [of ?img wide_source] by blast
  have img: "img' = img" using res assms by simp
  have w: "in_window 0 0" "\<not> in_window 800 0"
    by (simp_all add: in_window_def width_def height_def)
  have "Pix img (0, 0) = (128, 0, 0, 255)" using p [of 0 0] w inb by (simp add: img rect at req)
  moreover have "Pix img (800, 0) = (128, 0, 0, 128)"
    using p [of 800 0] w inb by (simp add: img copied)
  ultimately show ?thesis by (simp add: sample_env_def bytes_at_def)
qed

section \<open>The escape-time evaluator\<close>

text \<open>
  Claim C3. \<^verbatim>\<open>mandelbrot\<close> starts from \<open>z = 0 + 0i\<close>, iterates \<open>z \<leftarrow> z\<^sup>2 + c\<close> at most
  \<open>maxIter\<close> times and returns the gray colour \<open>i mod 256\<close> (all channels equal, full
  opacity) for the first index \<open>i < maxIter\<close> whose updated \<open>z\<close> has \<open>|z|\<^sup>2 > 4\<close>, and
  black if there is none. At \<open>0 + 0i\<close> the result is black (bounded), at \<open>5 + 5i\<close> it
  is the gray colour 0 (escaped at index 0).
\<close>

theorem mandelbrot_classification:
  "mandelbrot c = escape_color (first_escape c)
   \<and> color_RGBA (escape_color (Some i)) =
       (widen8 (of_nat (i mod 256)), widen8 (of_nat (i mod 256)), widen8 (of_nat (i mod 256)), 0xffff)
   \<and> color_RGBA (escape_color None) = (0, 0, 0, 0xffff)
   \<and> first_escape origin = None \<and> mandelbrot origin = Black
   \<and> first_escape five_five = Some 0 \<and> mandelbrot five_five = Gray 0"
  by (simp add: mandelbrot_escape_color first_escape_origin first_escape_five)
     (simp add: escape_color_def Black_def)

text \<open>
  Claim C5. \<^verbatim>\<open>mandelbrot\<close> returns for every complex input, and its loop body runs at
  most \<open>maxIter = 200\<close> times: the loop is a total function, here with the count of its
  iterations.
\<close>

theorem mandelbrot_terminates_within_maxIter:
  "mandelbrot_loop 0 \<lparr>Real = Finite False 0, Imag = Finite False 0\<rparr> c =
     (mandelbrot c, mandelbrot_iterations c)
   \<and> mandelbrot_iterations c \<le> nat maxIter \<and> nat maxIter = 200"
  by (auto simp add: mandelbrot_def mandelbrot_iterations_def mandelbrot_loop_first_escape maxIter_def
        split: option.splits dest: first_escape_less)

text \<open>
  Claim C9. For every input that escapes, at index \<open>i\<close>, the index is below 200, so
  \<open>i % 256\<close> is \<open>i\<close>, and \<^verbatim>\<open>mandelbrot\<close> returns the gray colour whose value is \<open>i\<close> itself.
  Conversely a gray colour that \<^verbatim>\<open>mandelbrot\<close> returns is the escape index, below 200:
  no gray value from 200 to 255 is returned.
\<close>

theorem mandelbrot_gray_is_escape_index:
  "(first_escape c = Some i \<longrightarrow>
      i < 200 \<and> go_rem (int i) 256 = int i
      \<and> mandelbrot c = Gray (of_nat i) \<and> unat (of_nat i :: uint8) = i)
   \<and> (mandelbrot c = Gray g \<longrightarrow> first_escape c = Some (unat g) \<and> unat g < 200)"
proof (intro conjI impI)
  assume e: "first_escape c = Some i"
  then show lt: "i < 200" by (rule first_escape_less)
  then show "go_rem (int i) 256 = int i" by (simp add: go_rem_nonneg)
  show "mandelbrot c = Gray (of_nat i)"
    using e lt by (simp add: mandelbrot_escape_color escape_color_def)
  show "unat (of_nat i :: uint8) = i"
    using lt by (simp add: unat_of_nat take_bit_nat_eq_self)
next
  assume g: "mandelbrot c = Gray g"
  then obtain i where i: "first_escape c = Some i" and gi: "g = of_nat (i mod 256)"
    by (auto simp: mandelbrot_escape_color escape_color_def Black_def split: option.splits)
  have lt: "i < 200" using i by (rule first_escape_less)
  then have u: "unat g = i" using gi by (simp add: unat_of_nat take_bit_nat_eq_self)
  show "first_escape c = Some (unat g)" using i u by simp
  show "unat g < 200" using lt u by simp
qed

theorem mandelbrot_gray_is_escape_index_witness:
  "first_escape minus_two_i = Some 1 \<and> (1 :: nat) < 200 \<and> go_rem (int 1) 256 = int 1
   \<and> mandelbrot minus_two_i = Gray 1 \<and> unat (1 :: uint8) = 1
   \<and> first_escape minus_two_i = Some (unat (1 :: uint8))"
proof -
  have e: "first_escape minus_two_i = Some 1" by (rule first_escape_minus_two_i)
  note t = mandelbrot_gray_is_escape_index [of minus_two_i 1 1]
  have m: "mandelbrot minus_two_i = Gray 1" using t e by simp
  show ?thesis using t e m by simp
qed

section \<open>The coordinate mapper\<close>



section \<open>The renderers\<close>

text \<open>
  Claim C7. Running the sequential renderer again, on the raster it produced and with
  the same source image, leaves the raster as it is: two runs give identical rasters.
\<close>

theorem sequential_rerun_identical:
  "generateMandelbrotSequential (generateMandelbrotSequential img src) src =
     generateMandelbrotSequential img src"
proof (rule RGBA_image_eqI)
  show "Rect (generateMandelbrotSequential (generateMandelbrotSequential img src) src) =
        Rect (generateMandelbrotSequential img src)" by simp
  show "Pix (generateMandelbrotSequential (generateMandelbrotSequential img src) src) =
        Pix (generateMandelbrotSequential img src)"
  proof (rule ext)
    fix p :: "int \<times> int"
    obtain a b where "p = (a, b)" by (cases p)
    then show "Pix (generateMandelbrotSequential (generateMandelbrotSequential img src) src) p =
               Pix (generateMandelbrotSequential img src) p"
      by (simp add: Pix_seq)
  qed
qed


text \<open>
  Claim C10. The raster of the sequential renderer does not depend on what the raster
  held before: two rasters with the same rectangle end up with the same pixels, and
  the \<^verbatim>\<open>copyImage\<close> pass before the renderer does not change its result.
\<close>

theorem sequential_independent_of_initial_raster:
  "Rect img1 = Rect img2 \<Longrightarrow>
     Rect (generateMandelbrotSequential img1 src) = Rect (generateMandelbrotSequential img2 src)
     \<and> (\<forall>x y. RGBA_At (generateMandelbrotSequential img1 src) x y =
               RGBA_At (generateMandelbrotSequential img2 src) x y)
     \<and> generateMandelbrotSequential (copyImage img1 other) src =
         generateMandelbrotSequential img1 src"
proof -
  assume r: "Rect img1 = Rect img2"
  have a: "Rect (generateMandelbrotSequential img1 src) = Rect (generateMandelbrotSequential img2 src)"
    using r by simp
  have b: "\<forall>x y. RGBA_At (generateMandelbrotSequential img1 src) x y =
               RGBA_At (generateMandelbrotSequential img2 src) x y"
    using r by (simp add: RGBA_At_seq)
  have c: "generateMandelbrotSequential (copyImage img1 other) src =
         generateMandelbrotSequential img1 src"
  proof (rule RGBA_image_eqI)
    show "Rect (generateMandelbrotSequential (copyImage img1 other) src) =
          Rect (generateMandelbrotSequential img1 src)" by simp
    show "Pix (generateMandelbrotSequential (copyImage img1 other) src) =
          Pix (generateMandelbrotSequential img1 src)"
    proof (rule ext)
      fix p :: "int \<times> int"
      obtain a b where "p = (a, b)" by (cases p)
      then show "Pix (generateMandelbrotSequential (copyImage img1 other) src) p =
                 Pix (generateMandelbrotSequential img1 src) p"
        by (simp add: Pix_seq Pix_copy)
    qed
  qed
  show ?thesis by (intro conjI) (rule a b c)+
qed

theorem sequential_independent_of_initial_raster_witness:
  "Rect (NewRGBA (Bounds small_source)) = Rect (copyImage (NewRGBA (Bounds small_source)) small_source)
   \<and> (\<forall>x y. RGBA_At (generateMandelbrotSequential (NewRGBA (Bounds small_source)) small_source) x y =
         RGBA_At (generateMandelbrotSequential
                    (copyImage (NewRGBA (Bounds small_source)) small_source) small_source) x y)"
proof -
  have r: "Rect (NewRGBA (Bounds small_source)) =
           Rect (copyImage (NewRGBA (Bounds small_source)) small_source)" by simp
  show ?thesis
    using r sequential_independent_of_initial_raster [OF r, of small_source small_source]
    by (intro conjI) (elim conjE, assumption)+
qed

text \<open>
  Claim C1 says that every pixel in bounds of the raster of either renderer ends as the
  re-quantized source pixel with alpha 255. The parallel renderer visits the columns
  and rows below \<open>width\<close> and \<open>height\<close> only: on the raster that \<^verbatim>\<open>processImage\<close>
  builds for the 801 by 1 picture \<open>wide_source\<close>, pixel \<open>(800, 0)\<close> is in bounds and keeps
  the bytes \<^verbatim>\<open>copyImage\<close> stored, alpha 128, while the sequential renderer stores
  alpha 255 there.
\<close>

theorem parallel_leaves_pixels_beyond_window:
  "Point_In \<lparr>X = 800, Y = 0\<rparr> (Rect (copyImage (NewRGBA (Bounds wide_source)) wide_source))
   \<and> (\<exists>img'. generateMandelbrotParallel (copyImage (NewRGBA (Bounds wide_source)) wide_source)
                wide_source = Inr img' \<and>
          RGBA_At img' 800 0 = RGBA 128 0 0 128)
   \<and> pixel_color (requantize (At wide_source 800 0)) = RGBA 128 0 0 255
   \<and> RGBA_At (generateMandelbrotSequential (copyImage (NewRGBA (Bounds wide_source)) wide_source)
               wide_source) 800 0 = RGBA 128 0 0 255"
proof -
  let ?img = "copyImage (NewRGBA (Bounds wide_source)) wide_source"
  have rect: "Rect (NewRGBA (Bounds wide_source)) = rectangle 0 0 801 1"
    by (simp add: NewRGBA_def wide_source_def)
  have inb: "Point_In \<lparr>X = 800, Y = 0\<rparr> (rectangle 0 0 801 1)"
    by (simp add: Point_In_def rectangle_def)
  have at: "At wide_source 800 0 = NRGBA 255 0 0 128"
    using inb by (simp add: wide_source_def)
  have copied: "Pix ?img (800, 0) = (128, 0, 0, 128)"
    using inb by (simp add: Pix_copy rect at)
       (simp add: wide_source_def uint8_shr8_def premultiply_def widen8_def)
  have req: "requantize (At wide_source 800 0) = (128, 0, 0, 255)"
    by (simp add: at requantize_def uint8_shr8_def premultiply_def widen8_def)
  obtain img' where res: "generateMandelbrotParallel ?img wide_source = Inr img'"
      "Rect img' = Rect ?img"
    and p: "\<And>a b. Pix img' (a, b) =
        (if in_window a b \<and> Point_In \<lparr>X = a, Y = b\<rparr> (Rect ?img)
         then requantize (At wide_source a b) else Pix ?img (a, b))"
    using par_result [of ?img wide_source] by blast
  have out: "\<not> in_window 800 0" by (simp add: in_window_def width_def)
  have "RGBA_At img' 800 0 = RGBA 128 0 0 128"
    using inb out by (simp add: RGBA_At_Pix res(2) rect p copied pixel_color_def)
  moreover have "RGBA_At (generateMandelbrotSequential ?img wide_source) 800 0 = RGBA 128 0 0 255"
    using inb by (simp add: RGBA_At_seq rect req pixel_color_def)
  ultimately show ?thesis using res(1) inb rect req by (simp add: pixel_color_def)
qed

text \<open>
  Claim C2 says that for every source image the two renderers end with rasters that are
  equal pixel for pixel. On the two rasters that \<^verbatim>\<open>processImage\<close> builds for the 801 by 1
  picture \<open>wide_source\<close> both renderers return and agree at the pixels of the window,
  here at \<open>(0, 0)\<close>, but the rasters differ at \<open>(800, 0)\<close>, which the parallel renderer
  never visits: they are not equal.
\<close>

theorem renderers_differ_beyond_window:
  "(\<exists>img'. generateMandelbrotParallel (copyImage (NewRGBA (Bounds wide_source)) wide_source)
               wide_source = Inr img'
      \<and> RGBA_At img' 0 0 =
          RGBA_At (generateMandelbrotSequential
                     (copyImage (NewRGBA (Bounds wide_source)) wide_source) wide_source) 0 0
      \<and> RGBA_At img' 800 0 \<noteq>
          RGBA_At (generateMandelbrotSequential
                     (copyImage (NewRGBA (Bounds wide_source)) wide_source) wide_source) 800 0)
   \<and> generateMandelbrotParallel (copyImage (NewRGBA (Bounds wide_source)) wide_source)
        wide_source \<noteq>
      Inr (generateMandelbrotSequential
             (copyImage (NewRGBA (Bounds wide_source)) wide_source) wide_source)"
proof -
  let ?img = "copyImage (NewRGBA (Bounds wide_source)) wide_source"
  have rect: "Rect (NewRGBA (Bounds wide_source)) = rectangle 0 0 801 1"
    by (simp add: NewRGBA_def wide_source_def)
  have inb: "Point_In \<lparr>X = 800, Y = 0\<rparr> (rectangle 0 0 801 1)"
    by (simp add: Point_In_def rectangle_def)
  have in0: "Point_In \<lparr>X = 0, Y = 0\<rparr> (rectangle 0 0 801 1)"
    by (simp add: Point_In_def rectangle_def)
  have at: "At wide_source 800 0 = NRGBA 255 0 0 128"
    using inb by (simp add: wide_source_def)
  have copied: "Pix ?img (800, 0) = (128, 0, 0, 128)"
    using inb by (simp add: Pix_copy rect at)
       (simp add: wide_source_def uint8_shr8_def premultiply_def widen8_def)
  have req: "requantize (At wide_source 800 0) = (128, 0, 0, 255)"
    by (simp add: at requantize_def uint8_shr8_def premultiply_def widen8_def)
  obtain img' where res: "generateMandelbrotParallel ?img wide_source = Inr img'"
      "Rect img' = Rect ?img"
    and p: "\<And>a b. Pix img' (a, b) =
        (if in_window a b \<and> Point_In \<lparr>X = a, Y = b\<rparr> (Rect ?img)
         then requantize (At wide_source a b) else Pix ?img (a, b))"
    using par_result [of ?img wide_source] by blast
  have out: "\<not> in_window 800 0" by (simp add: in_window_def width_def)
  have w0: "in_window 0 0" by (simp add: in_window_def width_def height_def)
  have far: "RGBA_At img' 800 0 = RGBA 128 0 0 128"
    using inb out by (simp add: RGBA_At_Pix res(2) rect p copied pixel_color_def)
  have seq_far: "RGBA_At (generateMandelbrotSequential ?img wide_source) 800 0 = RGBA 128 0 0 255"
    using inb by (simp add: RGBA_At_seq rect req pixel_color_def)
  have near: "RGBA_At img' 0 0 = RGBA_At (generateMandelbrotSequential ?img wide_source) 0 0"
    using in0 w0 by (simp add: RGBA_At_seq) (simp add: RGBA_At_Pix res(2) rect p)
  have diff: "RGBA_At img' 800 0 \<noteq> RGBA_At (generateMandelbrotSequential ?img wide_source) 800 0"
    by (simp add: far seq_far)
  have "img' \<noteq> generateMandelbrotSequential ?img wide_source" using diff by auto
  then have ne: "generateMandelbrotParallel ?img wide_source \<noteq>
      Inr (generateMandelbrotSequential ?img wide_source)"
    by (simp add: res(1))
  show ?thesis using res(1) near diff ne by blast
qed

text \<open>
  Claim C6. In every state that the interleaved parallel renderer can reach, the
  goroutines started are those of the columns below the loop variable, at most
  \<open>width\<close>, one per column; a goroutine that has called \<^verbatim>\<open>Done\<close> has stored all \<open>height\<close>
  pixels of its column, by the per-pixel step of the sequential renderer; the counter,
  set by \<^verbatim>\<open>wg.Add(height)\<close>, is zero exactly when the goroutines of all \<open>width\<close> columns
  have called \<^verbatim>\<open>Done\<close>; \<^verbatim>\<open>wg.Wait()\<close> has returned only if all of them have, and the raster
  is then the one of the renderer run column by column; no \<^verbatim>\<open>Done\<close> panics; and some
  schedule does return.
\<close>

theorem parallel_join_barrier:
  "par_reachable src img s \<Longrightarrow>
     par_pixel src = seq_pixel src
     \<and> started s \<le> width
     \<and> (\<forall>x. progress s x \<noteq> Pending \<longleftrightarrow> 0 \<le> x \<and> x < started s)
     \<and> (\<forall>x y. progress s x = Finished \<and> 0 \<le> y \<and> y < height
            \<and> Point_In \<lparr>X = x, Y = y\<rparr> (Rect img)
          \<longrightarrow> Pix (raster s) (x, y) = requantize (At src x y))
     \<and> (counter s = 0 \<longleftrightarrow> (\<forall>x. 0 \<le> x \<and> x < width \<longrightarrow> progress s x = Finished))
     \<and> (returned s \<longrightarrow>
           (\<forall>x. 0 \<le> x \<and> x < width \<longrightarrow> progress s x = Finished)
           \<and> generateMandelbrotParallel img src = Inr (raster s))
     \<and> \<not> panicked s
     \<and> (\<exists>t. par_reachable src img t \<and> returned t)"
proof -
  assume r: "par_reachable src img s"
  note inv = par_inv_reachable [OF r]
  note d = par_invD [OF inv]
  have a: "par_pixel src = seq_pixel src" by (simp add: par_pixel_put seq_pixel_put)
  have b: "\<forall>x. progress s x \<noteq> Pending \<longleftrightarrow> 0 \<le> x \<and> x < started s"
    by (intro allI) (rule d(3))
  have c: "\<forall>x y. progress s x = Finished \<and> 0 \<le> y \<and> y < height
            \<and> Point_In \<lparr>X = x, Y = y\<rparr> (Rect img)
          \<longrightarrow> Pix (raster s) (x, y) = requantize (At src x y)"
  proof (intro allI impI)
    fix x y
    assume "progress s x = Finished \<and> 0 \<le> y \<and> y < height \<and> Point_In \<lparr>X = x, Y = y\<rparr> (Rect img)"
    then show "Pix (raster s) (x, y) = requantize (At src x y)"
      unfolding d(7) by simp
  qed
  note z = counter_zero_iff [OF inv]
  have e: "returned s \<longrightarrow>
           (\<forall>x. 0 \<le> x \<and> x < width \<longrightarrow> progress s x = Finished)
           \<and> generateMandelbrotParallel img src = Inr (raster s)"
  proof
    assume "returned s"
    then have "counter s = 0" using d(8) by simp
    then have all: "\<forall>x. 0 \<le> x \<and> x < width \<longrightarrow> progress s x = Finished"
      using z by (rule iffD1 [rotated])
    then show "(\<forall>x. 0 \<le> x \<and> x < width \<longrightarrow> progress s x = Finished)
           \<and> generateMandelbrotParallel img src = Inr (raster s)"
      using finished_raster [OF inv] by (intro conjI)
  qed
  show ?thesis by (intro conjI a d(2) b c z e d(9) returning_run)
qed

theorem parallel_join_barrier_witness:
  "\<exists>s. par_reachable small_source (NewRGBA (Bounds small_source)) s \<and> returned s
       \<and> counter s = 0 \<and> progress s 0 = Finished \<and> progress s 799 = Finished
       \<and> \<not> panicked s
       \<and> generateMandelbrotParallel (NewRGBA (Bounds small_source)) small_source = Inr (raster s)"
proof -
  obtain s where s: "par_reachable small_source (NewRGBA (Bounds small_source)) s" "returned s"
    using returning_run by blast
  note t = parallel_join_barrier [OF s(1)]
  have all: "\<forall>x. 0 \<le> x \<and> x < width \<longrightarrow> progress s x = Finished"
    and res: "generateMandelbrotParallel (NewRGBA (Bounds small_source)) small_source = Inr (raster s)"
    using t s(2) by blast+
  have z: "counter s = 0" using t all by blast
  have p0: "progress s 0 = Finished" using all by (simp add: width_def)
  have p1: "progress s 799 = Finished" using all by (simp add: width_def)
  have np: "\<not> panicked s" using t by blast
  show ?thesis using s z p0 p1 np res by blast
qed

section \<open>The presets\<close>

text \<open>
  Claim C8. A preset whose input cannot be opened or decoded makes \<^verbatim>\<open>processImage\<close>
  return before a raster is allocated, so that the preset leaves no output file and
  no timing report, while the other presets are processed as before and the program
  completes. For the program started on any file system \<open>fs\<close>, in every state \<open>s\<close>
  that \<^verbatim>\<open>main\<close> and its goroutines can reach in any interleaving: nothing has
  panicked. For a level whose input fails with the error line \<open>l\<close>, the goroutine has
  only that line and \<^verbatim>\<open>wg.Done()\<close> ahead once it has tried its input, the two result
  files of the level are as at the start, and no timing report of the level is
  printed; if every level fails, no raster has been allocated. For a level whose
  input decodes to \<open>src\<close> and whose goroutine has finished, whatever the other levels
  did, each result file that could be created holds the encoding of the raster of its
  renderer, and both timing reports are printed. When \<^verbatim>\<open>main\<close> has returned, every
  goroutine has finished. Until then a step is possible, every step lowers the bound
  \<open>work\<close>, and the run can be continued to the return of \<^verbatim>\<open>main\<close>.
\<close>

theorem failing_preset_is_isolated:
  assumes "main_reachable e fs s"
  shows "\<not> crashed s
    \<and> (\<forall>level fl l. levelFiles level = Some fl \<and> failure_report e fs fl = Some l \<longrightarrow>
          (\<forall>rest. procs s level = Some (Script rest) \<longrightarrow>
             rest = [Print l, Done_wg] \<or> rest = [Done_wg] \<or> rest = [])
          \<and> files (shared s) (sequential_path level) = fs (sequential_path level)
          \<and> files (shared s) (parallel_path level) = fs (parallel_path level)
          \<and> (\<forall>t. timing_of level t \<longrightarrow> t \<notin> set (stdout (shared s))))
    \<and> ((\<forall>level fl. levelFiles level = Some fl \<longrightarrow> failure_report e fs fl \<noteq> None) \<longrightarrow>
          rasters (shared s) = 0)
    \<and> (\<forall>level fl bytes src.
          levelFiles level = Some fl \<and> fs fl = Some bytes \<and> Decode e bytes = Inr src
          \<and> procs s level = Some (Script []) \<longrightarrow>
          (\<exists>img. generateMandelbrotParallel (copyImage (NewRGBA (Bounds src)) src) src = Inr img
             \<and> files (shared s) (sequential_path level) =
                 (case create_error e (sequential_path level) of
                    None \<Rightarrow> Some (fst (Encode e
                      (generateMandelbrotSequential (copyImage (NewRGBA (Bounds src)) src) src)))
                  | Some err \<Rightarrow> fs (sequential_path level))
             \<and> files (shared s) (parallel_path level) =
                 (case create_error e (parallel_path level) of
                    None \<Rightarrow> Some (fst (Encode e img))
                  | Some err \<Rightarrow> fs (parallel_path level))
             \<and> SequentialElapsed level (sequential_time e level) \<in> set (stdout (shared s))
             \<and> ParallelElapsed level (parallel_time e level) \<in> set (stdout (shared s))))
    \<and> (pc s = Returned \<longrightarrow> (\<forall>level \<in> dom levelFiles. procs s level = Some (Script [])))
    \<and> (pc s \<noteq> Returned \<longrightarrow> (\<exists>s'. main_step e s s'))
    \<and> (\<forall>s'. main_step e s s' \<longrightarrow> \<not> crashed s' \<and> work e fs s' < work e fs s)
    \<and> (\<exists>s'. main_run e s s' \<and> pc s' = Returned)"
proof -
  have inv: "main_inv e fs s" using assms by (rule main_reachable_inv)
  have a: "\<not> crashed s" using main_invD(1) [OF inv] .
  have b: "(\<forall>rest. procs s level = Some (Script rest) \<longrightarrow>
             rest = [Print l, Done_wg] \<or> rest = [Done_wg] \<or> rest = [])
          \<and> files (shared s) (sequential_path level) = fs (sequential_path level)
          \<and> files (shared s) (parallel_path level) = fs (parallel_path level)
          \<and> (\<forall>t. timing_of level t \<longrightarrow> t \<notin> set (stdout (shared s)))"
    if "levelFiles level = Some fl \<and> failure_report e fs fl = Some l" for level fl l
    using failing_state [OF inv, of level fl l] that by blast
  have c: "rasters (shared s) = 0"
    if "\<forall>level fl. levelFiles level = Some fl \<longrightarrow> failure_report e fs fl \<noteq> None"
    using assms that by (intro no_raster [of e fs s]) blast+
  have d: "\<exists>img. generateMandelbrotParallel (copyImage (NewRGBA (Bounds src)) src) src = Inr img
             \<and> files (shared s) (sequential_path level) =
                 (case create_error e (sequential_path level) of
                    None \<Rightarrow> Some (fst (Encode e
                      (generateMandelbrotSequential (copyImage (NewRGBA (Bounds src)) src) src)))
                  | Some err \<Rightarrow> fs (sequential_path level))
             \<and> files (shared s) (parallel_path level) =
                 (case create_error e (parallel_path level) of
                    None \<Rightarrow> Some (fst (Encode e img))
                  | Some err \<Rightarrow> fs (parallel_path level))
             \<and> SequentialElapsed level (sequential_time e level) \<in> set (stdout (shared s))
             \<and> ParallelElapsed level (parallel_time e level) \<in> set (stdout (shared s))"
    if h: "levelFiles level = Some fl \<and> fs fl = Some bytes \<and> Decode e bytes = Inr src
          \<and> procs s level = Some (Script [])" for level fl bytes src
  proof -
    have h1: "levelFiles level = Some fl" and h2: "fs fl = Some bytes"
      and h3: "Decode e bytes = Inr src" and h4: "procs s level = Some (Script [])"
      using h by simp_all
    show ?thesis using inv h1 h2 h3 h4 by (rule finished_state)
  qed
  have f: "\<forall>level \<in> dom levelFiles. procs s level = Some (Script [])" if "pc s = Returned"
    using returned_finished [OF inv that] by blast
  have g: "\<exists>s'. main_step e s s'" if "pc s \<noteq> Returned"
    using inv that by (rule main_progress)
  have h: "\<not> crashed s' \<and> work e fs s' < work e fs s" if st: "main_step e s s'" for s'
  proof -
    have "main_inv e fs s'" using st inv by (rule main_inv_step)
    then have "\<not> crashed s'" by (rule main_invD(1))
    moreover have "work e fs s' < work e fs s" using st inv by (rule work_decreases)
    ultimately show ?thesis by simp
  qed
  have i: "\<exists>s'. main_run e s s' \<and> pc s' = Returned" using inv by (rule main_completes)
  show ?thesis
    apply (intro conjI allI impI)
    using a apply assumption
    using b apply blast
    using b apply blast
    using b apply blast
    using b apply blast
    using c apply blast
    using d apply blast
    using f apply blast
    using g apply blast
    using h apply blast
    using h apply blast
    using i apply assumption
    done
qed

theorem failing_preset_is_isolated_witness:
  "(\<exists>s. main_reachable sample_env sample_files s \<and> pc s = Returned \<and> \<not> crashed s
     \<and> failure_report sample_env sample_files ''photos/easy.png'' = None
     \<and> files (shared s) (sequential_path ''easy'') = Some [128, 0, 0, 255, 128, 0, 0, 255]
     \<and> files (shared s) (parallel_path ''easy'') = Some [128, 0, 0, 255, 128, 0, 0, 128]
     \<and> SequentialElapsed ''easy'' ''2ms'' \<in> set (stdout (shared s))
     \<and> ParallelElapsed ''easy'' ''1ms'' \<in> set (stdout (shared s))
     \<and> failure_report sample_env sample_files ''photos/normal.png''
         = Some (ErrorDecoding ''image: unknown format'')
     \<and> files (shared s) (sequential_path ''normal'') = None
     \<and> files (shared s) (parallel_path ''normal'') = None
     \<and> SequentialElapsed ''normal'' ''2ms'' \<notin> set (stdout (shared s))
     \<and> ParallelElapsed ''normal'' ''1ms'' \<notin> set (stdout (shared s))
     \<and> failure_report sample_env sample_files ''photos/hard.png''
         = Some (ErrorOpening ''open photos/hard.png: no such file or directory'')
     \<and> files (shared s) (sequential_path ''hard'') = None
     \<and> files (shared s) (parallel_path ''hard'') = None
     \<and> SequentialElapsed ''hard'' ''2ms'' \<notin> set (stdout (shared s))
     \<and> ParallelElapsed ''hard'' ''1ms'' \<notin> set (stdout (shared s)))
   \<and> (\<exists>s'. main_step sample_env (main_init sample_files) s' \<and> \<not> crashed s'
          \<and> work sample_env sample_files s' < work sample_env sample_files (main_init sample_files))
   \<and> (\<exists>s. main_reachable sample_env Map.empty s \<and> pc s = Returned \<and> rasters (shared s) = 0)"
proof -
  have r0: "main_reachable sample_env sample_files (main_init sample_files)"
    by (simp add: main_reachable_def main_run.stay)
  have "\<exists>s. main_run sample_env (main_init sample_files) s \<and> pc s = Returned"
    using failing_preset_is_isolated [OF r0] by (elim conjE)
  then obtain s where run: "main_run sample_env (main_init sample_files) s"
    and pc: "pc s = Returned" by blast
  have rs: "main_reachable sample_env sample_files s" using run by (simp add: main_reachable_def)
  note t = failing_preset_is_isolated [OF rs]
  have nc: "\<not> crashed s" using t by (elim conjE)
  have fin: "pc s = Returned \<longrightarrow> (\<forall>level \<in> dom levelFiles. procs s level = Some (Script []))"
    using t by (elim conjE)
  have easy: "levelFiles ''easy'' = Some ''photos/easy.png''"
    and normal: "levelFiles ''normal'' = Some ''photos/normal.png''"
    and hard: "levelFiles ''hard'' = Some ''photos/hard.png''"
    by (simp_all add: levelFiles_def)
  have pe: "procs s ''easy'' = Some (Script [])" using fin pc easy by blast
  have fe: "sample_files ''photos/easy.png'' = Some [137, 80, 78, 71]"
    by (simp add: sample_files_def)
  have de: "Decode sample_env [137, 80, 78, 71] = Inr wide_source" by (simp add: sample_env_def)
  have fr_e: "failure_report sample_env sample_files ''photos/easy.png'' = None"
    by (simp add: failure_report_def fe de)
  have fr_n: "failure_report sample_env sample_files ''photos/normal.png''
         = Some (ErrorDecoding ''image: unknown format'')"
    by (simp add: failure_report_def sample_files_def sample_env_def)
  have fr_h: "failure_report sample_env sample_files ''photos/hard.png''
         = Some (ErrorOpening ''open photos/hard.png: no such file or directory'')"
    by (simp add: failure_report_def sample_files_def sample_env_def)
  have good: "\<forall>level fl bytes src.
          levelFiles level = Some fl \<and> sample_files fl = Some bytes \<and> Decode sample_env bytes = Inr src
          \<and> procs s level = Some (Script []) \<longrightarrow>
          (\<exists>img. generateMandelbrotParallel (copyImage (NewRGBA (Bounds src)) src) src = Inr img
             \<and> files (shared s) (sequential_path level) =
                 (case create_error sample_env (sequential_path level) of
                    None \<Rightarrow> Some (fst (Encode sample_env
                      (generateMandelbrotSequential (copyImage (NewRGBA (Bounds src)) src) src)))
                  | Some err \<Rightarrow> sample_files (sequential_path level))
             \<and> files (shared s) (parallel_path level) =
                 (case create_error sample_env (parallel_path level) of
                    None \<Rightarrow> Some (fst (Encode sample_env img))
                  | Some err \<Rightarrow> sample_files (parallel_path level))
             \<and> SequentialElapsed level (sequential_time sample_env level) \<in> set (stdout (shared s))
             \<and> ParallelElapsed level (parallel_time sample_env level) \<in> set (stdout (shared s)))"
    using t by (elim conjE)
  have ce: "create_error sample_env p = None" for p by (simp add: sample_env_def)
  have tm: "sequential_time sample_env k = ''2ms''" "parallel_time sample_env k = ''1ms''" for k
    by (simp_all add: sample_env_def)
  obtain img where img: "generateMandelbrotParallel
        (copyImage (NewRGBA (Bounds wide_source)) wide_source) wide_source = Inr img"
    and e1: "files (shared s) (sequential_path ''easy'') =
               Some (fst (Encode sample_env (generateMandelbrotSequential
                 (copyImage (NewRGBA (Bounds wide_source)) wide_source) wide_source)))"
    and e2: "files (shared s) (parallel_path ''easy'') = Some (fst (Encode sample_env img))"
    and e3: "SequentialElapsed ''easy'' ''2ms'' \<in> set (stdout (shared s))"
    and e4: "ParallelElapsed ''easy'' ''1ms'' \<in> set (stdout (shared s))"
    using good [rule_format, of "''easy''" "''photos/easy.png''" "[137, 80, 78, 71]" wide_source]
      easy fe de pe unfolding ce tm by auto
  have bad: "\<forall>level fl l. levelFiles level = Some fl \<and> failure_report sample_env sample_files fl = Some l \<longrightarrow>
          (\<forall>rest. procs s level = Some (Script rest) \<longrightarrow>
             rest = [Print l, Done_wg] \<or> rest = [Done_wg] \<or> rest = [])
          \<and> files (shared s) (sequential_path level) = sample_files (sequential_path level)
          \<and> files (shared s) (parallel_path level) = sample_files (parallel_path level)
          \<and> (\<forall>t. timing_of level t \<longrightarrow> t \<notin> set (stdout (shared s)))"
    using t by (elim conjE)
  have none: "sample_files (sequential_path k) = None" "sample_files (parallel_path k) = None" for k
    by (simp_all add: sample_files_def sequential_path_def parallel_path_def result_path_def)
  have n: "files (shared s) (sequential_path ''normal'') = None"
      "files (shared s) (parallel_path ''normal'') = None"
      "SequentialElapsed ''normal'' ''2ms'' \<notin> set (stdout (shared s))"
      "ParallelElapsed ''normal'' ''1ms'' \<notin> set (stdout (shared s))"
    using bad [rule_format, of "''normal''" "''photos/normal.png''"] normal fr_n none
    by (simp_all add: timing_of_def)
  have h: "files (shared s) (sequential_path ''hard'') = None"
      "files (shared s) (parallel_path ''hard'') = None"
      "SequentialElapsed ''hard'' ''2ms'' \<notin> set (stdout (shared s))"
      "ParallelElapsed ''hard'' ''1ms'' \<notin> set (stdout (shared s))"
    using bad [rule_format, of "''hard''" "''photos/hard.png''"] hard fr_h none
    by (simp_all add: timing_of_def)
  have "main_reachable sample_env sample_files s \<and> pc s = Returned \<and> \<not> crashed s
     \<and> failure_report sample_env sample_files ''photos/easy.png'' = None
     \<and> files (shared s) (sequential_path ''easy'') = Some [128, 0, 0, 255, 128, 0, 0, 255]
     \<and> files (shared s) (parallel_path ''easy'') = Some [128, 0, 0, 255, 128, 0, 0, 128]
     \<and> SequentialElapsed ''easy'' ''2ms'' \<in> set (stdout (shared s))
     \<and> ParallelElapsed ''easy'' ''1ms'' \<in> set (stdout (shared s))
     \<and> failure_report sample_env sample_files ''photos/normal.png''
         = Some (ErrorDecoding ''image: unknown format'')
     \<and> files (shared s) (sequential_path ''normal'') = None
     \<and> files (shared s) (parallel_path ''normal'') = None
     \<and> SequentialElapsed ''normal'' ''2ms'' \<notin> set (stdout (shared s))
     \<and> ParallelElapsed ''normal'' ''1ms'' \<notin> set (stdout (shared s))
     \<and> failure_report sample_env sample_files ''photos/hard.png''
         = Some (ErrorOpening ''open photos/hard.png: no such file or directory'')
     \<and> files (shared s) (sequential_path ''hard'') = None
     \<and> files (shared s) (parallel_path ''hard'') = None
     \<and> SequentialElapsed ''hard'' ''2ms'' \<notin> set (stdout (shared s))
     \<and> ParallelElapsed ''hard'' ''1ms'' \<notin> set (stdout (shared s))"
    using rs pc nc fr_e e1 e2 e3 e4 fr_n n fr_h h
    by (simp only: wide_sequential_bytes wide_parallel_bytes [OF img] simp_thms)
  then have first: "\<exists>s. main_reachable sample_env sample_files s \<and> pc s = Returned \<and> \<not> crashed s
     \<and> failure_report sample_env sample_files ''photos/easy.png'' = None
     \<and> files (shared s) (sequential_path ''easy'') = Some [128, 0, 0, 255, 128, 0, 0, 255]
     \<and> files (shared s) (parallel_path ''easy'') = Some [128, 0, 0, 255, 128, 0, 0, 128]
     \<and> SequentialElapsed ''easy'' ''2ms'' \<in> set (stdout (shared s))
     \<and> ParallelElapsed ''easy'' ''1ms'' \<in> set (stdout (shared s))
     \<and> failure_report sample_env sample_files ''photos/normal.png''
         = Some (ErrorDecoding ''image: unknown format'')
     \<and> files (shared s) (sequential_path ''normal'') = None
     \<and> files (shared s) (parallel_path ''normal'') = None
     \<and> SequentialElapsed ''normal'' ''2ms'' \<notin> set (stdout (shared s))
     \<and> ParallelElapsed ''normal'' ''1ms'' \<notin> set (stdout (shared s))
     \<and> failure_report sample_env sample_files ''photos/hard.png''
         = Some (ErrorOpening ''open photos/hard.png: no such file or directory'')
     \<and> files (shared s) (sequential_path ''hard'') = None
     \<and> files (shared s) (parallel_path ''hard'') = None
     \<and> SequentialElapsed ''hard'' ''2ms'' \<notin> set (stdout (shared s))
     \<and> ParallelElapsed ''hard'' ''1ms'' \<notin> set (stdout (shared s))"
    by (rule exI)
  have "pc (main_init sample_files) \<noteq> Returned \<longrightarrow>
          (\<exists>s'. main_step sample_env (main_init sample_files) s')"
    using failing_preset_is_isolated [OF r0] by (elim conjE)
  then obtain s1 where s1: "main_step sample_env (main_init sample_files) s1"
    by (auto simp add: main_init_def)
  have "\<forall>s'. main_step sample_env (main_init sample_files) s' \<longrightarrow> \<not> crashed s'
          \<and> work sample_env sample_files s' < work sample_env sample_files (main_init sample_files)"
    using failing_preset_is_isolated [OF r0] by (elim conjE)
  then have second: "\<exists>s'. main_step sample_env (main_init sample_files) s' \<and> \<not> crashed s'
          \<and> work sample_env sample_files s' < work sample_env sample_files (main_init sample_files)"
    using s1 by blast
  have q0: "main_reachable sample_env Map.empty (main_init Map.empty)"
    by (simp add: main_reachable_def main_run.stay)
  have "\<exists>s. main_run sample_env (main_init Map.empty) s \<and> pc s = Returned"
    using failing_preset_is_isolated [OF q0] by (elim conjE)
  then obtain u where u: "main_run sample_env (main_init Map.empty) u" "pc u = Returned" by blast
  have qu: "main_reachable sample_env Map.empty u" using u(1) by (simp add: main_reachable_def)
  have fails: "\<forall>level fl. levelFiles level = Some fl \<longrightarrow>
                 failure_report sample_env Map.empty fl \<noteq> None"
    by (simp add: failure_report_def)
  have "(\<forall>level fl. levelFiles level = Some fl \<longrightarrow> failure_report sample_env Map.empty fl \<noteq> None)
          \<longrightarrow> rasters (shared u) = 0"
    using failing_preset_is_isolated [OF qu] by (elim conjE)
  then have "rasters (shared u) = 0" using fails by (elim impE)
  then have third: "\<exists>s. main_reachable sample_env Map.empty s \<and> pc s = Returned
                       \<and> rasters (shared s) = 0"
    using qu u(2) by blast
  show ?thesis using first second third by (intro conjI)
qed

end
